theory Spec2Isabelle
  imports Main "HOL-Library.AList"
begin

section \<open>Data shared by the three packages\<close>

text \<open>
  Go's \<open>string\<close> and \<open>[]byte\<close> are both sequences of 8-bit bytes, and the conversions
  \<open>[]byte(s)\<close> and \<open>string(b)\<close> keep the bytes as they are. Both are modelled by
  \<open>char list\<close>: an Isabelle \<open>char\<close> is one byte. A \<open>nil\<close> slice and an empty slice are
  the same list.
\<close>

type_synonym bytes = string

text \<open>
  Error values. The sentinels are the package-level \<open>Err...\<close> variables of the source;
  \<open>ErrorString m\<close> is \<open>errors.New(m)\<close> or a \<open>fmt.Errorf\<close> without an operand;
  \<open>Errorf m e\<close> is \<open>fmt.Errorf("m: %w", e)\<close>; \<open>ErrorfQ m k e\<close> is
  \<open>fmt.Errorf("m %q: %w", k, e)\<close>; \<open>ErrorfOf s d c\<close> is a \<open>fmt.Errorf\<close> whose
  format starts with \<open>%w\<close> for the sentinel \<open>s\<close>, followed by the detail text \<open>d\<close> and,
  where the source prints one with \<open>%v\<close>, the cause \<open>c\<close>. \<open>LibError\<close> is an error
  value made by the standard library, and \<open>Panic\<close> a run-time panic.
\<close>

datatype error =
    ErrInvalidKeySize
  | ErrCiphertextShort
  | ErrInvalidNonce
  | ErrInvalidFormat
  | ErrExpired
  | ErrInvalidVersion
  | ErrDecryption
  | ErrScopeKeyMissing
  | ErrNoAuditLog
  | LibError string
  | ErrorString string
  | Errorf string error
  | ErrorfQ string string error
  | ErrorfOf error string "error option"
  | Panic string

text \<open>A value decoded by \<open>encoding/json\<close> into \<open>interface{}\<close>.\<close>

datatype json =
    JNull
  | JBool bool
  | JNumber int
  | JString string
  | JArray "json list"
  | JObject "(string \<times> json) list"

text \<open>
  A Go \<open>map[string]T\<close> is an association list read with \<open>map_of\<close> and written with
  \<open>AList.update\<close>; the order of the pairs has no meaning.
  A \<open>time.Time\<close> is the instant in nanoseconds since the Unix epoch, a
  \<open>time.Duration\<close> a number of nanoseconds.
  The fields \<open>Scope\<close> and \<open>SessionID\<close> of \<open>audit.Entry\<close> are named \<open>EntryScope\<close> and
  \<open>EntrySessionID\<close> here, the fields of \<open>envelope.Info\<close> carry the prefix \<open>Info\<close>: a
  field name can be used by one record only.
\<close>

type_synonym gotime = int

record Entry =
  Timestamp :: gotime
  Op :: string
  EntryScope :: "string list"
  EntrySessionID :: string
  TTL :: string
  Command :: string
  ExitCode :: int
  Tool :: string
  PrevHash :: string

section \<open>The standard library\<close>

text \<open>
  The packages call \<open>crypto/cipher\<close> (AES-GCM), \<open>crypto/sha256\<close>, \<open>encoding/json\<close>,
  \<open>time\<close> and \<open>github.com/google/uuid\<close>. None of that is code of this repository; the
  functions below take these operations as the fields of one record.
  \<^item> \<open>gcm_seal key nonce plaintext aad\<close> is what \<open>cipher.AEAD.Seal(nil, ...)\<close> returns
    (ciphertext followed by the tag), \<open>gcm_open key nonce ciphertext aad\<close> is
    \<open>cipher.AEAD.Open\<close>, \<open>None\<close> when authentication fails.
  \<^item> \<open>sha256_sum\<close> is \<open>sha256.Sum256\<close>.
  \<^item> \<open>json_marshal\<close> and \<open>json_unmarshal\<close> are \<open>json.Marshal\<close> and \<open>json.Unmarshal\<close> on
    \<open>interface{}\<close> values; \<open>entry_marshal\<close> and \<open>entry_unmarshal\<close> are the same functions
    on the struct \<open>audit.Entry\<close> (\<open>None\<close> is an error).
  \<^item> \<open>rfc3339_format t\<close> is \<open>t.Format(time.RFC3339)\<close>, \<open>rfc3339_parse s\<close> is
    \<open>time.Parse(time.RFC3339, s)\<close>.
  \<^item> \<open>uuid_string r\<close> is the text of the version 4 UUID made from the 16 random bytes \<open>r\<close>.
\<close>

record stdlib =
  gcm_seal :: "bytes \<Rightarrow> bytes \<Rightarrow> bytes \<Rightarrow> bytes \<Rightarrow> bytes"
  gcm_open :: "bytes \<Rightarrow> bytes \<Rightarrow> bytes \<Rightarrow> bytes \<Rightarrow> bytes option"
  sha256_sum :: "bytes \<Rightarrow> bytes"
  json_marshal :: "json \<Rightarrow> bytes"
  json_unmarshal :: "bytes \<Rightarrow> json option"
  entry_marshal :: "Entry \<Rightarrow> bytes option"
  entry_unmarshal :: "bytes \<Rightarrow> Entry option"
  rfc3339_format :: "gotime \<Rightarrow> string"
  rfc3339_parse :: "string \<Rightarrow> gotime option"
  uuid_string :: "bytes \<Rightarrow> string"

text \<open>
  \<open>crypto/rand\<close>: the random source is a tape of bytes that the calls consume in
  order; \<open>rand.Read\<close> of \<open>n\<close> bytes fails when the tape holds fewer.
\<close>

type_synonym rng = bytes

definition rand_read :: "nat \<Rightarrow> rng \<Rightarrow> (bytes \<times> rng) option" where
  "rand_read n tape = (if length tape < n then None else Some (take n tape, drop n tape))"

subsection \<open>encoding/base64, StdEncoding\<close>

definition b64_alphabet :: string where
  "b64_alphabet = ''ABCDEFGHIJKLMNOPQRSTUVWXYZabcdefghijklmnopqrstuvwxyz0123456789+/''"

definition padChar :: char where
  "padChar = CHR ''=''"

fun index_of :: "'a \<Rightarrow> 'a list \<Rightarrow> nat" where
  "index_of x [] = 0"
| "index_of x (y # ys) = (if x = y then 0 else Suc (index_of x ys))"

definition encode_sextet :: "nat \<Rightarrow> char" where
  \<comment> \<open>\<open>enc.encode[v & 0x3F]\<close>\<close>
  "encode_sextet v = b64_alphabet ! (v mod 64)"

definition decode_char :: "char \<Rightarrow> nat option" where
  \<comment> \<open>\<open>enc.decodeMap[c]\<close>, \<open>None\<close> for the entry 0xFF\<close>
  "decode_char c = (if c \<in> set b64_alphabet then Some (index_of c b64_alphabet) else None)"

definition byte :: "nat \<Rightarrow> char" where
  \<comment> \<open>the conversion \<open>byte(v)\<close>: the low 8 bits\<close>
  "byte n = char_of n"

fun b64_encode :: "bytes \<Rightarrow> string" where
  "b64_encode [] = []"
| "b64_encode [a] =
     (let val = of_char a * 65536 in
      [encode_sextet (val div 262144), encode_sextet (val div 4096), padChar, padChar])"
| "b64_encode [a, b] =
     (let val = of_char a * 65536 + of_char b * 256 in
      [encode_sextet (val div 262144), encode_sextet (val div 4096),
       encode_sextet (val div 64), padChar])"
| "b64_encode (a # b # c # rest) =
     (let val = of_char a * 65536 + of_char b * 256 + of_char c in
      [encode_sextet (val div 262144), encode_sextet (val div 4096),
       encode_sextet (val div 64), encode_sextet val] @ b64_encode rest)"

text \<open>
  Decoding reads quanta of four characters; padding is legal only at the end of the
  last quantum, and the decoder is not strict about the unused low bits.
\<close>

fun decode_quanta :: "string \<Rightarrow> bytes option" where
  "decode_quanta [] = Some []"
| "decode_quanta (c1 # c2 # c3 # c4 # rest) =
     (case (decode_char c1, decode_char c2) of
        (Some s1, Some s2) \<Rightarrow>
          if c3 = padChar then
            (if c4 = padChar \<and> rest = [] then Some [byte ((s1 * 64 + s2) div 16)] else None)
          else
            (case decode_char c3 of
               None \<Rightarrow> None
             | Some s3 \<Rightarrow>
                 if c4 = padChar then
                   (if rest = [] then
                      (let val = (s1 * 64 + s2) * 64 + s3 in
                       Some [byte (val div 1024), byte (val div 4)])
                    else None)
                 else
                   (case decode_char c4 of
                      None \<Rightarrow> None
                    | Some s4 \<Rightarrow>
                        (let val = ((s1 * 64 + s2) * 64 + s3) * 64 + s4 in
                         map_option
                           (\<lambda>r. [byte (val div 65536), byte (val div 256), byte val] @ r)
                           (decode_quanta rest))))
      | _ \<Rightarrow> None)"
| "decode_quanta _ = None"

definition b64_decode :: "string \<Rightarrow> bytes option" where
  \<comment> \<open>\<open>DecodeString\<close> skips carriage returns and line feeds\<close>
  "b64_decode s = decode_quanta (filter (\<lambda>c. c \<noteq> CHR 0x0D \<and> c \<noteq> CHR 0x0A) s)"

subsection \<open>encoding/hex and strings\<close>

definition hextable :: string where
  "hextable = ''0123456789abcdef''"

definition hex_digit :: "nat \<Rightarrow> char" where
  "hex_digit v = hextable ! (v mod 16)"

fun hex_encode :: "bytes \<Rightarrow> string" where
  "hex_encode [] = []"
| "hex_encode (b # bs) =
     hex_digit (of_char b div 16) # hex_digit (of_char b) # hex_encode bs"

definition HasPrefix :: "string \<Rightarrow> string \<Rightarrow> bool" where
  "HasPrefix s pre = (take (length pre) s = pre)"

definition SplitN2 :: "string \<Rightarrow> char \<Rightarrow> string list" where
  \<comment> \<open>\<open>strings.SplitN(s, sep, 2)\<close> for a separator of one byte\<close>
  "SplitN2 s sep =
     (if sep \<in> set s
      then [takeWhile (\<lambda>c. c \<noteq> sep) s, tl (dropWhile (\<lambda>c. c \<noteq> sep) s)]
      else [s])"

section \<open>Package crypto\<close>

subsection \<open>AES-GCM wrapper\<close>

text \<open>
  \<open>NewAESGCM\<close> checks the key size; after that check \<open>aes.NewCipher\<close> and
  \<open>cipher.NewGCM\<close> cannot fail, so the \<open>AESGCM\<close> value is its key.
\<close>

definition NewAESGCM :: "bytes \<Rightarrow> error + bytes" where
  "NewAESGCM key =
     (if length key \<noteq> 16 \<and> length key \<noteq> 24 \<and> length key \<noteq> 32
      then Inl ErrInvalidKeySize else Inr key)"

definition NonceSize :: nat where
  "NonceSize = 12"

definition Seal :: "stdlib \<Rightarrow> bytes \<Rightarrow> bytes \<Rightarrow> bytes \<Rightarrow> rng \<Rightarrow> (error + bytes) \<times> rng" where
  "Seal L key plaintext additionalData tape =
     (case rand_read NonceSize tape of
        None \<Rightarrow> (Inl (Errorf ''generate nonce'' (LibError ''crypto/rand'')), tape)
      | Some (nonce, tape') \<Rightarrow>
          (Inr (nonce @ gcm_seal L key nonce plaintext additionalData), tape'))"

definition Open :: "stdlib \<Rightarrow> bytes \<Rightarrow> bytes \<Rightarrow> bytes \<Rightarrow> error + bytes" where
  "Open L key ciphertext additionalData =
     (if length ciphertext < NonceSize then Inl ErrCiphertextShort
      else
        (case gcm_open L key (take NonceSize ciphertext) (drop NonceSize ciphertext)
                additionalData of
           None \<Rightarrow> Inl (Errorf ''decrypt'' (LibError ''cipher: message authentication failed''))
         | Some plaintext \<Rightarrow> Inr plaintext))"

definition EncryptAESGCM ::
  "stdlib \<Rightarrow> bytes \<Rightarrow> bytes \<Rightarrow> bytes \<Rightarrow> rng \<Rightarrow> (error + bytes) \<times> rng" where
  "EncryptAESGCM L key plaintext additionalData tape =
     (case NewAESGCM key of
        Inl err \<Rightarrow> (Inl err, tape)
      | Inr aesgcm \<Rightarrow> Seal L aesgcm plaintext additionalData tape)"

definition DecryptAESGCM :: "stdlib \<Rightarrow> bytes \<Rightarrow> bytes \<Rightarrow> bytes \<Rightarrow> error + bytes" where
  "DecryptAESGCM L key ciphertext additionalData =
     (case NewAESGCM key of
        Inl err \<Rightarrow> Inl err
      | Inr aesgcm \<Rightarrow> Open L aesgcm ciphertext additionalData)"

subsection \<open>Data encryption keys\<close>

record MasterKey =
  mk_key :: bytes

record DEK =
  dek_key :: bytes

definition GenerateDEK :: "rng \<Rightarrow> (error + DEK) \<times> rng" where
  "GenerateDEK tape =
     (case rand_read 32 tape of
        None \<Rightarrow> (Inl (Errorf ''failed to generate DEK'' (LibError ''crypto/rand'')), tape)
      | Some (key, tape') \<Rightarrow> (Inr \<lparr>dek_key = key\<rparr>, tape'))"

definition DEKFromBytes :: "bytes \<Rightarrow> DEK" where
  "DEKFromBytes key = \<lparr>dek_key = key\<rparr>"

text \<open>
  \<open>DEK.Encrypt\<close> returns the nonce and the ciphertext. The slice
  \<open>ciphertext[:aesgcm.NonceSize()]\<close> is in range: the ciphertext starts with the nonce.
\<close>

definition DEK_Encrypt ::
  "stdlib \<Rightarrow> DEK \<Rightarrow> bytes \<Rightarrow> string \<Rightarrow> rng \<Rightarrow> (error + bytes \<times> bytes) \<times> rng" where
  "DEK_Encrypt L d plaintext keyName tape =
     (case EncryptAESGCM L (dek_key d) plaintext keyName tape of
        (Inl err, tape') \<Rightarrow> (Inl (Errorf ''failed to encrypt'' err), tape')
      | (Inr ciphertext, tape') \<Rightarrow>
          (case NewAESGCM (dek_key d) of
             Inl err \<Rightarrow> (Inl err, tape')
           | Inr aesgcm \<Rightarrow> (Inr (take NonceSize ciphertext, ciphertext), tape')))"

definition DEK_Decrypt :: "stdlib \<Rightarrow> DEK \<Rightarrow> bytes \<Rightarrow> string \<Rightarrow> error + bytes" where
  "DEK_Decrypt L d ciphertext keyName =
     (case DecryptAESGCM L (dek_key d) ciphertext keyName of
        Inl err \<Rightarrow> Inl (Errorf ''failed to decrypt'' err)
      | Inr plaintext \<Rightarrow> Inr plaintext)"

subsection \<open>The persisted envelope\<close>

definition EncryptedValuePrefix :: string where
  "EncryptedValuePrefix = ''envx:''"

record EncryptedValue =
  WrappedDEK :: string
  Ciphertext :: string

definition EncryptedValue_String :: "EncryptedValue \<Rightarrow> string" where
  "EncryptedValue_String e = EncryptedValuePrefix @ WrappedDEK e @ '':'' @ Ciphertext e"

definition ParseEncryptedValue :: "string \<Rightarrow> error + EncryptedValue" where
  "ParseEncryptedValue s =
     (if \<not> HasPrefix s EncryptedValuePrefix then Inl (ErrorString ''not an encrypted value'')
      else
        (let rest = drop (length EncryptedValuePrefix) s;
             parts = SplitN2 rest (CHR '':'')
         in if length parts \<noteq> 2 then Inl (ErrorString ''invalid encrypted value format'')
            else Inr \<lparr>WrappedDEK = parts ! 0, Ciphertext = parts ! 1\<rparr>))"

definition wrapDEK :: "stdlib \<Rightarrow> MasterKey \<Rightarrow> DEK \<Rightarrow> rng \<Rightarrow> (error + bytes) \<times> rng" where
  "wrapDEK L m d tape = EncryptAESGCM L (mk_key m) (dek_key d) [] tape"

definition unwrapDEK :: "stdlib \<Rightarrow> MasterKey \<Rightarrow> bytes \<Rightarrow> error + DEK" where
  "unwrapDEK L m wrapped =
     (case DecryptAESGCM L (mk_key m) wrapped [] of
        Inl err \<Rightarrow> Inl (Errorf ''failed to unwrap DEK'' err)
      | Inr key \<Rightarrow> Inr (DEKFromBytes key))"

definition Encrypt ::
  "stdlib \<Rightarrow> MasterKey \<Rightarrow> bytes \<Rightarrow> string \<Rightarrow> rng \<Rightarrow> (error + EncryptedValue) \<times> rng" where
  "Encrypt L m plaintext keyName tape =
     (case GenerateDEK tape of
        (Inl err, tape1) \<Rightarrow> (Inl err, tape1)
      | (Inr dek, tape1) \<Rightarrow>
          (case DEK_Encrypt L dek plaintext keyName tape1 of
             (Inl err, tape2) \<Rightarrow> (Inl (Errorf ''failed to encrypt with DEK'' err), tape2)
           | (Inr (nonce, ciphertext), tape2) \<Rightarrow>
               (case wrapDEK L m dek tape2 of
                  (Inl err, tape3) \<Rightarrow> (Inl (Errorf ''failed to wrap DEK'' err), tape3)
                | (Inr wrappedDEK, tape3) \<Rightarrow>
                    (Inr \<lparr>WrappedDEK = b64_encode wrappedDEK,
                          Ciphertext = b64_encode ciphertext\<rparr>, tape3))))"

definition Decrypt :: "stdlib \<Rightarrow> MasterKey \<Rightarrow> EncryptedValue \<Rightarrow> string \<Rightarrow> error + bytes" where
  "Decrypt L m ev keyName =
     (case b64_decode (WrappedDEK ev) of
        None \<Rightarrow>
          Inl (Errorf ''failed to decode wrapped DEK'' (LibError ''base64.CorruptInputError''))
      | Some wrappedDEK \<Rightarrow>
          (case unwrapDEK L m wrappedDEK of
             Inl err \<Rightarrow> Inl (Errorf ''failed to unwrap DEK'' err)
           | Inr dek \<Rightarrow>
               (case b64_decode (Ciphertext ev) of
                  None \<Rightarrow>
                    Inl (Errorf ''failed to decode ciphertext''
                           (LibError ''base64.CorruptInputError''))
                | Some ciphertext \<Rightarrow>
                    (case DEK_Decrypt L dek ciphertext keyName of
                       Inl err \<Rightarrow> Inl (Errorf ''failed to decrypt'' err)
                     | Inr plaintext \<Rightarrow> Inr plaintext))))"

text \<open>
  The three draws of one \<open>Encrypt\<close> call, by their place on the tape: the data key, the
  nonce of the data ciphertext and the nonce of the wrapped key.
\<close>

definition data_key :: "rng \<Rightarrow> bytes" where
  "data_key tape = take 32 tape"

definition data_nonce :: "rng \<Rightarrow> bytes" where
  "data_nonce tape = take 12 (drop 32 tape)"

definition wrap_nonce :: "rng \<Rightarrow> bytes" where
  "wrap_nonce tape = take 12 (drop 44 tape)"

text \<open>
  The specification's wording of what \<open>ParseEncryptedValue\<close> accepts: the prefix, then a
  remainder that splits into exactly two colon-separated segments. \<open>Split\<close> is
  \<open>strings.Split\<close> for a separator of one byte.
\<close>

fun Split :: "string \<Rightarrow> char \<Rightarrow> string list" where
  "Split [] sep = [[]]"
| "Split (c # cs) sep =
     (if c = sep then [] # Split cs sep
      else (case Split cs sep of [] \<Rightarrow> [[c]] | seg # segs \<Rightarrow> (c # seg) # segs))"

definition spec_accepts_encrypted_value :: "string \<Rightarrow> bool" where
  "spec_accepts_encrypted_value s =
     (HasPrefix s EncryptedValuePrefix \<and>
      length (Split (drop (length EncryptedValuePrefix) s) (CHR '':'')) = 2)"

section \<open>Package envelope\<close>

definition prefix_v1 :: string where
  "prefix_v1 = ''envelope:v1:''"

definition hkdfInfo :: string where
  "hkdfInfo = ''openenvx-envelope-v1''"


definition sessionKeyLen :: nat where
  "sessionKeyLen = 32"

record Envelope =
  SessionID :: string
  CreatedAt :: gotime
  ExpiresAt :: gotime
  Scope :: "string list"
  UnwrapSecret :: bytes
  WrappedSessionKey :: bytes
  EncryptedSecrets :: "(string \<times> bytes) list"

record Info =
  InfoSessionID :: string
  InfoCreatedAt :: gotime
  InfoExpiresAt :: gotime
  InfoScope :: "string list"
  Status :: string
  KeysIncluded :: nat

definition deriveWrapKey :: "stdlib \<Rightarrow> bytes \<Rightarrow> bytes" where
  "deriveWrapKey L unwrapSecret = take sessionKeyLen (sha256_sum L (unwrapSecret @ hkdfInfo))"


definition unwrapSessionKey :: "stdlib \<Rightarrow> bytes \<Rightarrow> bytes \<Rightarrow> error + bytes" where
  "unwrapSessionKey L wrappedKey wrapKey = DecryptAESGCM L wrapKey wrappedKey []"


definition decryptWithSessionKey :: "stdlib \<Rightarrow> bytes \<Rightarrow> bytes \<Rightarrow> string \<Rightarrow> error + bytes" where
  "decryptWithSessionKey L sessionKey ciphertext keyName =
     DecryptAESGCM L sessionKey ciphertext keyName"





text \<open>
  The loop of \<open>Unwrap\<close>. Go visits the entries of a map in no fixed order; with more
  than one undecryptable entry the key named in the error depends on that order.
\<close>

fun decrypt_entries ::
  "stdlib \<Rightarrow> bytes \<Rightarrow> (string \<times> bytes) list \<Rightarrow> (string \<times> string) list
     \<Rightarrow> error + (string \<times> string) list" where
  "decrypt_entries L sessionKey [] secrets = Inr secrets"
| "decrypt_entries L sessionKey ((key, ciphertext) # rest) secrets =
     (case decryptWithSessionKey L sessionKey ciphertext key of
        Inl err \<Rightarrow> Inl (ErrorfQ ''decrypt'' key err)
      | Inr plaintext \<Rightarrow>
          decrypt_entries L sessionKey rest (AList.update key plaintext secrets))"

definition Unwrap :: "stdlib \<Rightarrow> Envelope \<Rightarrow> gotime \<Rightarrow> error + (string \<times> string) list" where
  "Unwrap L e now =
     (if now > ExpiresAt e then Inl ErrExpired
      else
        (let wrapKey = deriveWrapKey L (UnwrapSecret e) in
         (case unwrapSessionKey L (WrappedSessionKey e) wrapKey of
            Inl err \<Rightarrow> Inl (ErrorfOf ErrDecryption [] (Some err))
          | Inr sessionKey \<Rightarrow> decrypt_entries L sessionKey (EncryptedSecrets e) [])))"

definition Inspect :: "Envelope \<Rightarrow> gotime \<Rightarrow> Info" where
  "Inspect e now =
     \<lparr>InfoSessionID = SessionID e,
      InfoCreatedAt = CreatedAt e,
      InfoExpiresAt = ExpiresAt e,
      InfoScope = Scope e,
      Status = (if now > ExpiresAt e then ''expired'' else ''valid''),
      KeysIncluded = length (EncryptedSecrets e)\<rparr>"




text \<open>
  \<open>json.Unmarshal\<close> into a \<open>map[string]interface{}\<close>: an object gives its map, \<open>null\<close>
  leaves the map \<open>nil\<close>, every other value is an error.
\<close>

definition unmarshal_map :: "stdlib \<Rightarrow> bytes \<Rightarrow> (string \<times> json) list option" where
  "unmarshal_map L payload =
     (case json_unmarshal L payload of
        Some (JObject m) \<Rightarrow> Some m
      | Some JNull \<Rightarrow> Some []
      | _ \<Rightarrow> None)"

definition string_field :: "(string \<times> json) list \<Rightarrow> string \<Rightarrow> string" where
  \<comment> \<open>\<open>v, _ := raw[key].(string)\<close>\<close>
  "string_field raw key = (case map_of raw key of Some (JString v) \<Rightarrow> v | _ \<Rightarrow> [])"

fun scope_strings :: "json list \<Rightarrow> string list \<Rightarrow> string list" where
  "scope_strings [] scope = scope"
| "scope_strings (v # rest) scope =
     (case v of
        JString str \<Rightarrow> scope_strings rest (scope @ [str])
      | _ \<Rightarrow> scope_strings rest scope)"

fun decode_secrets :: "(string \<times> json) list \<Rightarrow> (string \<times> bytes) list \<Rightarrow> (string \<times> bytes) list" where
  "decode_secrets [] encryptedSecrets = encryptedSecrets"
| "decode_secrets ((key, val) # rest) encryptedSecrets =
     (case val of
        JString b64 \<Rightarrow>
          (case b64_decode b64 of
             None \<Rightarrow> decode_secrets rest encryptedSecrets
           | Some ct \<Rightarrow> decode_secrets rest (AList.update key ct encryptedSecrets))
      | _ \<Rightarrow> decode_secrets rest encryptedSecrets)"

definition Parse :: "stdlib \<Rightarrow> string \<Rightarrow> error + Envelope" where
  "Parse L s =
     (if \<not> HasPrefix s prefix_v1 then Inl ErrInvalidFormat
      else
        (case b64_decode (drop (length prefix_v1) s) of
           None \<Rightarrow>
             Inl (ErrorfOf ErrInvalidFormat ''base64 decode''
                    (Some (LibError ''base64.CorruptInputError'')))
         | Some payload \<Rightarrow>
        (case unmarshal_map L payload of
           None \<Rightarrow> Inl (ErrorfOf ErrInvalidFormat ''json parse'' (Some (LibError ''json'')))
         | Some raw \<Rightarrow>
        (let sessionID = string_field raw ''session_id'';
             createdAtStr = string_field raw ''created_at'';
             expiresAtStr = string_field raw ''expires_at''
         in
        (case rfc3339_parse L createdAtStr of
           None \<Rightarrow>
             Inl (ErrorfOf ErrInvalidFormat ''parse created_at''
                    (Some (LibError ''time.ParseError'')))
         | Some createdAt \<Rightarrow>
        (case rfc3339_parse L expiresAtStr of
           None \<Rightarrow>
             Inl (ErrorfOf ErrInvalidFormat ''parse expires_at''
                    (Some (LibError ''time.ParseError'')))
         | Some expiresAt \<Rightarrow>
        (let scope = (case map_of raw ''scope'' of
                        Some (JArray vs) \<Rightarrow> scope_strings vs []
                      | _ \<Rightarrow> [])
         in
        (case b64_decode (string_field raw ''unwrap_secret'') of
           None \<Rightarrow>
             Inl (ErrorfOf ErrInvalidFormat ''decode unwrap_secret''
                    (Some (LibError ''base64.CorruptInputError'')))
         | Some unwrapSecret \<Rightarrow>
        (case b64_decode (string_field raw ''wrapped_session_key'') of
           None \<Rightarrow>
             Inl (ErrorfOf ErrInvalidFormat ''decode wrapped_session_key''
                    (Some (LibError ''base64.CorruptInputError'')))
         | Some wrappedSessionKey \<Rightarrow>
        (let encryptedSecretsRaw = (case map_of raw ''encrypted_secrets'' of
                                      Some (JObject m) \<Rightarrow> m
                                    | _ \<Rightarrow> [])
         in
           Inr \<lparr>SessionID = sessionID,
                CreatedAt = createdAt,
                ExpiresAt = expiresAt,
                Scope = scope,
                UnwrapSecret = unwrapSecret,
                WrappedSessionKey = wrappedSessionKey,
                EncryptedSecrets = decode_secrets encryptedSecretsRaw []\<rparr>))))))))))"

definition ParseAndInspect :: "stdlib \<Rightarrow> string \<Rightarrow> gotime \<Rightarrow> error + Info" where
  "ParseAndInspect L s now =
     (case Parse L s of
        Inl err \<Rightarrow> Inl err
      | Inr e \<Rightarrow> Inr (Inspect e now))"


text \<open>
  Words of the claims about \<open>Parse\<close>. A token is well formed in the sense of claim C9
  when its prefix, its base64 payload, its outer JSON and its two timestamps are;
  \<open>secrets_field\<close> is the \<open>encrypted_secrets\<close> object of a decoded payload, and
  \<open>decoded_entry\<close> what one of its entries decodes to: nothing when the value is no
  string or no valid base64.
\<close>

definition well_formed_token :: "stdlib \<Rightarrow> string \<Rightarrow> bool" where
  "well_formed_token L s =
     (HasPrefix s prefix_v1 \<and>
      (case b64_decode (drop (length prefix_v1) s) of
         None \<Rightarrow> False
       | Some payload \<Rightarrow>
           (case unmarshal_map L payload of
              None \<Rightarrow> False
            | Some raw \<Rightarrow>
                rfc3339_parse L (string_field raw ''created_at'') \<noteq> None \<and>
                rfc3339_parse L (string_field raw ''expires_at'') \<noteq> None)))"

definition secrets_field :: "(string \<times> json) list \<Rightarrow> (string \<times> json) list" where
  "secrets_field raw = (case map_of raw ''encrypted_secrets'' of Some (JObject m) \<Rightarrow> m | _ \<Rightarrow> [])"

definition decoded_entry :: "(string \<times> json) list \<Rightarrow> string \<Rightarrow> bytes option" where
  "decoded_entry es key =
     (case map_of es key of
        Some (JString b64) \<Rightarrow> b64_decode b64
      | _ \<Rightarrow> None)"



section \<open>Package audit\<close>

text \<open>
  The audit log is one file; its state is \<open>None\<close> when the file does not exist and
  \<open>Some content\<close> otherwise. The file system is taken to accept every operation
  (\<open>MkdirAll\<close>, \<open>OpenFile\<close>, the write), so the only error cases left are the ones the
  source decides itself.
\<close>

subsection \<open>bufio.Scanner with the default split function and buffer\<close>

definition MaxScanTokenSize :: nat where
  "MaxScanTokenSize = 64 * 1024"

definition newline :: char where
  "newline = CHR 0x0A"

definition dropCR :: "string \<Rightarrow> string" where
  "dropCR line = (if line \<noteq> [] \<and> last line = CHR 0x0D then butlast line else line)"

text \<open>
  \<open>scan_lines content\<close> is the list of the tokens that the loop
  \<open>for scanner.Scan() { ... scanner.Text() ... }\<close> sees. The scanner's buffer grows to
  \<open>MaxScanTokenSize\<close> bytes and no further: a line that does not end within that many
  bytes makes \<open>Scan\<close> return false (the error is \<open>bufio.ErrTooLong\<close>) and the loop ends
  there. The source never asks the scanner for its error.
\<close>

function scan_lines :: "string \<Rightarrow> string list" where
  "scan_lines [] = []"
| "scan_lines (c # cs) =
     (let line = takeWhile (\<lambda>x. x \<noteq> newline) (c # cs);
          rest = dropWhile (\<lambda>x. x \<noteq> newline) (c # cs)
      in if MaxScanTokenSize \<le> length line then []
         else dropCR line # (case rest of [] \<Rightarrow> [] | nl # rest' \<Rightarrow> scan_lines rest'))"
  by pat_completeness auto
termination
proof (relation "measure length")
  show "wf (measure length)" by simp
next
  fix c :: char and cs line rest nl rest'
  assume "rest = dropWhile (\<lambda>x. x \<noteq> newline) (c # cs)" and "rest = nl # rest'"
  then have "length (nl # rest') \<le> length (c # cs)"
    by (metis length_dropWhile_le)
  then show "(rest', c # cs) \<in> measure length" by simp
qed

subsection \<open>Writing entries\<close>

definition lastHash :: "stdlib \<Rightarrow> string option \<Rightarrow> string" where
  "lastHash L file =
     (case file of
        None \<Rightarrow> []
      | Some content \<Rightarrow>
          (let lastLine = foldl (\<lambda>lastLine text. text) [] (scan_lines content)
           in if lastLine = [] then [] else hex_encode (sha256_sum L lastLine)))"

datatype LogOption =
    WithScope "string list"
  | WithSessionID string
  | WithTTL string
  | WithCommand string

fun apply_option :: "LogOption \<Rightarrow> Entry \<Rightarrow> Entry" where
  "apply_option (WithScope keys) e = e\<lparr>EntryScope := keys\<rparr>"
| "apply_option (WithSessionID sid) e = e\<lparr>EntrySessionID := sid\<rparr>"
| "apply_option (WithTTL ttl) e = e\<lparr>TTL := ttl\<rparr>"
| "apply_option (WithCommand cmd) e = e\<lparr>Command := cmd\<rparr>"

definition new_entry :: "stdlib \<Rightarrow> string option \<Rightarrow> gotime \<Rightarrow> string \<Rightarrow> LogOption list \<Rightarrow> Entry" where
  \<comment> \<open>the entry that \<open>Log\<close> builds and then passes through the options in order\<close>
  "new_entry L file now op opts =
     foldl (\<lambda>entry opt. apply_option opt entry)
       \<lparr>Timestamp = now, Op = op, EntryScope = [], EntrySessionID = [], TTL = [],
        Command = [], ExitCode = 0, Tool = [], PrevHash = lastHash L file\<rparr>
       opts"

definition Log ::
  "stdlib \<Rightarrow> string option \<Rightarrow> gotime \<Rightarrow> string \<Rightarrow> LogOption list
     \<Rightarrow> error option \<times> string option" where
  "Log L file now op opts =
     (case entry_marshal L (new_entry L file now op opts) of
        None \<Rightarrow> (Some (Errorf ''marshal entry'' (LibError ''json'')), file)
      | Some b \<Rightarrow>
          (None, Some ((case file of None \<Rightarrow> [] | Some content \<Rightarrow> content) @ b @ [newline])))"

subsection \<open>Verifying the chain\<close>

record VerifyResult =
  TotalEntries :: nat
  Breaks :: "nat list"
  FirstModified :: nat

text \<open>The loop \<open>for i := 1; i < len(lines); i++\<close> of \<open>Verify\<close>.\<close>

function verify_loop :: "stdlib \<Rightarrow> string list \<Rightarrow> nat \<Rightarrow> nat list \<Rightarrow> nat list" where
  "verify_loop L lines i breaks =
     (if i < length lines then
        (let prevHashStr = hex_encode (sha256_sum L (lines ! (i - 1))) in
         (case entry_unmarshal L (lines ! i) of
            None \<Rightarrow> verify_loop L lines (i + 1) (breaks @ [i + 1])
          | Some entry \<Rightarrow>
              if PrevHash entry \<noteq> prevHashStr
              then verify_loop L lines (i + 1) (breaks @ [i + 1])
              else verify_loop L lines (i + 1) breaks))
      else breaks)"
  by pat_completeness auto
termination
  by (relation "measure (\<lambda>(L, lines, i, breaks). length lines - i)") auto

definition Verify :: "stdlib \<Rightarrow> string option \<Rightarrow> error + VerifyResult" where
  "Verify L file =
     (case file of
        None \<Rightarrow> Inl ErrNoAuditLog
      | Some content \<Rightarrow>
          (let lines = scan_lines content;
               result = \<lparr>TotalEntries = length lines, Breaks = [], FirstModified = 0\<rparr>
           in if length lines = 0 then Inr result
              else
                (case entry_unmarshal L (lines ! 0) of
                   None \<Rightarrow> Inr (result\<lparr>FirstModified := 1\<rparr>)
                 | Some firstEntry \<Rightarrow>
                     (let breaks = (if PrevHash firstEntry \<noteq> [] then [1] else [])
                      in Inr (result\<lparr>Breaks := verify_loop L lines 1 breaks\<rparr>)))))"

subsection \<open>Sequences of appends\<close>

text \<open>
  A call of \<open>Log\<close> is given by the clock reading, the operation and the options.
  \<open>Logs\<close> runs a list of calls one after the other on the file. \<open>all_short\<close> says
  that every entry of such a run, as serialized, is shorter than the scanner's limit.
\<close>

type_synonym log_call = "gotime \<times> string \<times> LogOption list"

fun Logs :: "stdlib \<Rightarrow> string option \<Rightarrow> log_call list \<Rightarrow> string option" where
  "Logs L file [] = file"
| "Logs L file ((now, op, opts) # calls) = Logs L (snd (Log L file now op opts)) calls"

fun all_short :: "stdlib \<Rightarrow> string option \<Rightarrow> log_call list \<Rightarrow> bool" where
  "all_short L file [] = True"
| "all_short L file ((now, op, opts) # calls) =
     (case entry_marshal L (new_entry L file now op opts) of
        None \<Rightarrow> False
      | Some b \<Rightarrow>
          length b < MaxScanTokenSize \<and> all_short L (snd (Log L file now op opts)) calls)"

text \<open>
  The invariant of the log. \<open>file_of ls\<close> is the content of a file with the lines \<open>ls\<close>;
  \<open>chained\<close> says that every line parses, that the first entry has an empty
  \<open>prev_hash\<close> and that every later entry stores the hex SHA-256 digest of the line
  before it; a \<open>good_line\<close> is one that the scanner returns as it was written.
\<close>

definition file_of :: "string list \<Rightarrow> string" where
  "file_of ls = concat (map (\<lambda>l. l @ [newline]) ls)"

definition chained :: "stdlib \<Rightarrow> string list \<Rightarrow> bool" where
  "chained L ls =
     (\<forall>i < length ls. \<exists>e. entry_unmarshal L (ls ! i) = Some e \<and>
        PrevHash e = (if i = 0 then [] else hex_encode (sha256_sum L (ls ! (i - 1)))))"

definition good_line :: "string \<Rightarrow> bool" where
  "good_line l =
     (newline \<notin> set l \<and> length l < MaxScanTokenSize \<and> l \<noteq> [] \<and> last l \<noteq> CHR 0x0D)"

definition log_inv :: "stdlib \<Rightarrow> string option \<Rightarrow> string list \<Rightarrow> bool" where
  "log_inv L file ls =
     ((file = Some (file_of ls) \<or> (file = None \<and> ls = [])) \<and> chained L ls \<and>
      (\<forall>l \<in> set ls. good_line l))"

section \<open>What is assumed of the standard library\<close>

text \<open>
  The results below are stated for every library that meets the properties they name.
  \<^item> \<open>aead_correct\<close>: \<open>Open\<close> undoes \<open>Seal\<close> under the same key, nonce and associated
    data (for a key of an AES size and a nonce of 12 bytes).
  \<^item> \<open>aead_binds_aad\<close>: \<open>Open\<close> rejects a sealed message presented with other associated
    data. This is the idealised authenticity of AES-GCM: the real tag has 128 bits, so
    the real library gives it up to a forgery probability, not absolutely.
  \<^item> \<open>sha256_size\<close>: a digest has 32 bytes.
  \<^item> \<open>json_lossless\<close>: \<open>json.Unmarshal\<close> returns the value that \<open>json.Marshal\<close> was
    given, an object with its pairs as they were (the order of the pairs of a map has
    no meaning, and no function below depends on it but for the text of an error).
    The real encoder replaces bytes that are not valid UTF-8 by U+FFFD, so this
    speaks of text that is valid UTF-8.
  \<^item> \<open>rfc3339_seconds\<close>: parsing a time formatted with \<open>time.RFC3339\<close> gives the instant
    cut to the whole second (the layout has no fraction). The real layout prints the
    years 0000 to 9999.
\<close>

definition aead_correct :: "stdlib \<Rightarrow> bool" where
  "aead_correct L =
     (\<forall>key nonce plaintext aad.
        (length key = 16 \<or> length key = 24 \<or> length key = 32) \<and> length nonce = 12 \<longrightarrow>
        gcm_open L key nonce (gcm_seal L key nonce plaintext aad) aad = Some plaintext)"


definition sha256_size :: "stdlib \<Rightarrow> bool" where
  "sha256_size L = (\<forall>x. length (sha256_sum L x) = 32)"

definition json_lossless :: "stdlib \<Rightarrow> bool" where
  "json_lossless L = (\<forall>v. json_unmarshal L (json_marshal L v) = Some v)"

definition truncate_second :: "gotime \<Rightarrow> gotime" where
  "truncate_second t = t - t mod 1000000000"

definition rfc3339_seconds :: "stdlib \<Rightarrow> bool" where
  "rfc3339_seconds L = (\<forall>t. rfc3339_parse L (rfc3339_format L t) = Some (truncate_second t))"

text \<open>
  \<open>entry_json_ok\<close>: \<open>json.Marshal\<close> of an \<open>Entry\<close> succeeds and gives one non-empty line
  (JSON text has no raw line feed and ends with a brace), and \<open>json.Unmarshal\<close> of that
  line gives an entry with the same \<open>prev_hash\<close>.
\<close>

definition entry_json_ok :: "stdlib \<Rightarrow> bool" where
  "entry_json_ok L =
     (\<forall>e. \<exists>b e'. entry_marshal L e = Some b \<and> b \<noteq> [] \<and> newline \<notin> set b \<and>
              last b \<noteq> CHR 0x0D \<and> entry_unmarshal L b = Some e' \<and> PrevHash e' = PrevHash e)"

section \<open>A small library to run the functions on concrete inputs\<close>

text \<open>
  \<open>testlib\<close> is an instance of the library record with simple, computable operations.
  It stands in for the Go packages where a statement below is evaluated on a concrete
  input; it is not the real cryptography or the real JSON text. Sealing keeps the
  plaintext readable and writes key, nonce and associated data in front of it; text
  inside the JSON stand-in is written in hexadecimal, numbers and seconds in unary.
\<close>

definition unary :: "string \<Rightarrow> string" where
  "unary a = replicate (length a) (CHR 0x01) @ CHR 0x00 # a"

definition t_seal :: "bytes \<Rightarrow> bytes \<Rightarrow> bytes \<Rightarrow> bytes \<Rightarrow> bytes" where
  "t_seal key nonce plaintext aad = key @ nonce @ unary aad @ plaintext"

definition t_open :: "bytes \<Rightarrow> bytes \<Rightarrow> bytes \<Rightarrow> bytes \<Rightarrow> bytes option" where
  "t_open key nonce ciphertext aad =
     (let pre = key @ nonce @ unary aad
      in if take (length pre) ciphertext = pre then Some (drop (length pre) ciphertext)
         else None)"

definition t_sha256 :: "bytes \<Rightarrow> bytes" where
  "t_sha256 x = take 32 (x @ replicate 32 (CHR 0x00))"

definition hex_value :: "char \<Rightarrow> nat option" where
  "hex_value c = (if c \<in> set hextable then Some (index_of c hextable) else None)"

fun hex_decode :: "string \<Rightarrow> bytes option" where
  "hex_decode [] = Some []"
| "hex_decode [h] = None"
| "hex_decode (h # l # rest) =
     (case (hex_value h, hex_value l, hex_decode rest) of
        (Some a, Some b, Some r) \<Rightarrow> Some (byte (a * 16 + b) # r)
      | _ \<Rightarrow> None)"

definition quote :: char where
  "quote = CHR 0x22"

definition t_quote :: "string \<Rightarrow> string" where
  "t_quote s = quote # hex_encode s @ [quote]"

definition t_num :: "int \<Rightarrow> string" where
  "t_num i =
     (if i < 0 then CHR ''-'' else CHR ''+'') # replicate (nat \<bar>i\<bar>) (CHR ''1'') @ '';''"

fun t_ser :: "json \<Rightarrow> string" where
  "t_ser JNull = ''n''"
| "t_ser (JBool b) = (if b then ''t'' else ''f'')"
| "t_ser (JNumber i) = t_num i"
| "t_ser (JString s) = t_quote s"
| "t_ser (JArray vs) = ''['' @ concat (map t_ser vs) @ '']''"
| "t_ser (JObject kvs) = ''{'' @ concat (map (\<lambda>kv. t_quote (fst kv) @ t_ser (snd kv)) kvs) @ ''}''"

definition t_take_quoted :: "string \<Rightarrow> (string \<times> string) option" where
  "t_take_quoted s =
     (case dropWhile (\<lambda>c. c \<noteq> quote) s of
        [] \<Rightarrow> None
      | q # rest \<Rightarrow>
          (case hex_decode (takeWhile (\<lambda>c. c \<noteq> quote) s) of
             None \<Rightarrow> None
           | Some x \<Rightarrow> Some (x, rest)))"

definition t_take_num :: "string \<Rightarrow> (int \<times> string) option" where
  "t_take_num s =
     (case dropWhile (\<lambda>c. c = CHR ''1'') s of
        [] \<Rightarrow> None
      | c # rest \<Rightarrow>
          if c = CHR '';'' then Some (int (length (takeWhile (\<lambda>c. c = CHR ''1'') s)), rest)
          else None)"

fun t_value :: "nat \<Rightarrow> string \<Rightarrow> (json \<times> string) option"
  and t_elems :: "nat \<Rightarrow> string \<Rightarrow> (json list \<times> string) option"
  and t_members :: "nat \<Rightarrow> string \<Rightarrow> ((string \<times> json) list \<times> string) option" where
  "t_value 0 s = None"
| "t_value (Suc n) [] = None"
| "t_value (Suc n) (c # s) =
     (if c = CHR ''n'' then Some (JNull, s)
      else if c = CHR ''t'' then Some (JBool True, s)
      else if c = CHR ''f'' then Some (JBool False, s)
      else if c = CHR ''+'' then map_option (\<lambda>(k, r). (JNumber k, r)) (t_take_num s)
      else if c = CHR ''-'' then map_option (\<lambda>(k, r). (JNumber (- k), r)) (t_take_num s)
      else if c = quote then map_option (\<lambda>(x, r). (JString x, r)) (t_take_quoted s)
      else if c = CHR ''['' then map_option (\<lambda>(vs, r). (JArray vs, r)) (t_elems n s)
      else if c = CHR ''{'' then map_option (\<lambda>(m, r). (JObject m, r)) (t_members n s)
      else None)"
| "t_elems 0 s = None"
| "t_elems (Suc n) [] = None"
| "t_elems (Suc n) (c # s) =
     (if c = CHR '']'' then Some ([], s)
      else
        (case t_value n (c # s) of
           None \<Rightarrow> None
         | Some (v, r) \<Rightarrow>
             (case t_elems n r of
                None \<Rightarrow> None
              | Some (vs, r') \<Rightarrow> Some (v # vs, r'))))"
| "t_members 0 s = None"
| "t_members (Suc n) [] = None"
| "t_members (Suc n) (c # s) =
     (if c = CHR ''}'' then Some ([], s)
      else if c = quote then
        (case t_take_quoted s of
           None \<Rightarrow> None
         | Some (k, r) \<Rightarrow>
             (case t_value n r of
                None \<Rightarrow> None
              | Some (v, r') \<Rightarrow>
                  (case t_members n r' of
                     None \<Rightarrow> None
                   | Some (m, r'') \<Rightarrow> Some ((k, v) # m, r''))))
      else None)"

definition t_unmarshal :: "bytes \<Rightarrow> json option" where
  "t_unmarshal s =
     (case t_value (length s) s of
        Some (v, []) \<Rightarrow> Some v
      | _ \<Rightarrow> None)"

definition t_entry_json :: "Entry \<Rightarrow> json" where
  "t_entry_json e =
     JObject
       [(''ts'', JNumber (Timestamp e)),
        (''op'', JString (Op e)),
        (''scope'', JArray (map JString (EntryScope e))),
        (''sid'', JString (EntrySessionID e)),
        (''ttl'', JString (TTL e)),
        (''cmd'', JString (Command e)),
        (''exit'', JNumber (ExitCode e)),
        (''tool'', JString (Tool e)),
        (''prev_hash'', JString (PrevHash e))]"

definition t_entry_marshal :: "Entry \<Rightarrow> bytes option" where
  "t_entry_marshal e = Some (t_ser (t_entry_json e))"

definition t_entry_of_json :: "json \<Rightarrow> Entry option" where
  "t_entry_of_json v =
     (case v of
        JObject [(k1, JNumber ts), (k2, JString op), (k3, JArray scope), (k4, JString sid),
                 (k5, JString ttl), (k6, JString cmd), (k7, JNumber exit), (k8, JString tool),
                 (k9, JString prev)] \<Rightarrow>
          Some \<lparr>Timestamp = ts, Op = op, EntryScope = scope_strings scope [],
                EntrySessionID = sid, TTL = ttl, Command = cmd, ExitCode = exit,
                Tool = tool, PrevHash = prev\<rparr>
      | _ \<Rightarrow> None)"

definition t_entry_unmarshal :: "bytes \<Rightarrow> Entry option" where
  "t_entry_unmarshal s =
     (case t_unmarshal s of
        None \<Rightarrow> None
      | Some v \<Rightarrow> t_entry_of_json v)"

definition t_format :: "gotime \<Rightarrow> string" where
  "t_format t = t_num (t div 1000000000)"

definition t_parse :: "string \<Rightarrow> gotime option" where
  "t_parse s =
     (case t_value 1 s of
        Some (JNumber k, []) \<Rightarrow> Some (k * 1000000000)
      | _ \<Rightarrow> None)"

definition testlib :: stdlib where
  "testlib =
     \<lparr>gcm_seal = t_seal,
      gcm_open = t_open,
      sha256_sum = t_sha256,
      json_marshal = t_ser,
      json_unmarshal = t_unmarshal,
      entry_marshal = t_entry_marshal,
      entry_unmarshal = t_entry_unmarshal,
      rfc3339_format = t_format,
      rfc3339_parse = t_parse,
      uuid_string = hex_encode\<rparr>"

section \<open>Facts about the library functions\<close>

subsection \<open>Base64 decodes what it encodes\<close>

lemma index_of_nth: "distinct xs \<Longrightarrow> i < length xs \<Longrightarrow> index_of (xs ! i) xs = i"
proof (induction xs arbitrary: i)
  case Nil
  then show ?case by simp
next
  case (Cons x xs)
  then show ?case by (cases i) auto
qed

lemma decode_encode_sextet: "decode_char (encode_sextet v) = Some (v mod 64)"
proof -
  have d: "distinct b64_alphabet" and l: "length b64_alphabet = 64"
    by (simp_all add: b64_alphabet_def)
  have "v mod 64 < length b64_alphabet" using l by simp
  then show ?thesis
    unfolding decode_char_def encode_sextet_def using d index_of_nth by auto
qed

lemma encode_sextet_in: "encode_sextet v \<in> set b64_alphabet"
proof -
  have "length b64_alphabet = 64" by (simp add: b64_alphabet_def)
  then show ?thesis unfolding encode_sextet_def by simp
qed

lemma alphabet_plain:
  "c \<in> set b64_alphabet \<Longrightarrow> c \<noteq> padChar \<and> c \<noteq> CHR 0x0D \<and> c \<noteq> CHR 0x0A"
  by (auto simp: b64_alphabet_def padChar_def)

lemma encode_sextet_plain [simp]:
  "encode_sextet v \<noteq> padChar" "encode_sextet v \<noteq> CHR 0x0D" "encode_sextet v \<noteq> CHR 0x0A"
  using alphabet_plain [OF encode_sextet_in] by blast+

lemma of_char_less: "of_char (c::char) < (256::nat)"
proof -
  have "(of_char c :: nat) mod 256 = of_char c" by simp
  then show ?thesis by (metis mod_less_divisor zero_less_numeral)
qed

lemma sextets_recompose:
  fixes v :: nat
  assumes "v < 16777216"
  shows "((v div 262144 mod 64 * 64 + v div 4096 mod 64) * 64 + v div 64 mod 64) * 64 + v mod 64 = v"
proof -
  let ?q1 = "v div 64"
  let ?q2 = "?q1 div 64"
  let ?q3 = "?q2 div 64"
  have d2: "v div 4096 = ?q2" by (simp add: div_mult2_eq[symmetric])
  have d3: "v div 262144 = ?q3" by (simp add: div_mult2_eq[symmetric])
  have "?q3 < 64" using assms by (simp add: d3[symmetric] div_less_iff_less_mult)
  then have m3: "?q3 mod 64 = ?q3" by simp
  have e1: "v = ?q1 * 64 + v mod 64" by simp
  have e2: "?q1 = ?q2 * 64 + ?q1 mod 64" by simp
  have e3: "?q2 = ?q3 * 64 + ?q2 mod 64" by simp
  show ?thesis
    unfolding d2 d3 m3 using e1 e2 e3 by metis
qed

lemma bytes_split:
  fixes a b c :: nat
  assumes "b < 256" "c < 256"
  shows "(a * 65536 + b * 256 + c) div 65536 = a"
    and "(a * 65536 + b * 256 + c) div 256 mod 256 = b"
    and "(a * 65536 + b * 256 + c) mod 256 = c"
proof -
  have r: "b * 256 + c < 65536" using assms by simp
  show "(a * 65536 + b * 256 + c) div 65536 = a" using r by simp
  have "(a * 65536 + b * 256 + c) div 256 = a * 256 + b" using assms by simp
  then show "(a * 65536 + b * 256 + c) div 256 mod 256 = b" using assms by simp
  have e: "a * 65536 + b * 256 + c = (a * 256 + b) * 256 + c" by simp
  show "(a * 65536 + b * 256 + c) mod 256 = c"
    unfolding e using assms(2) by (simp only: mod_mult_self3 mod_less)
qed

lemma byte_eq: "n mod 256 = of_char c \<Longrightarrow> byte n = c"
  by (simp add: byte_def char_of_eq_iff take_bit_eq_mod)

text \<open>One full quantum: three bytes and back.\<close>

lemma quantum3:
  fixes a b c :: char
  defines "v \<equiv> of_char a * 65536 + of_char b * 256 + (of_char c :: nat)"
  defines "w \<equiv> ((v div 262144 mod 64 * 64 + v div 4096 mod 64) * 64 + v div 64 mod 64) * 64 + v mod 64"
  shows "byte (w div 65536) = a" "byte (w div 256) = b" "byte w = c"
proof -
  have la: "(of_char a :: nat) < 256" and lb: "(of_char b :: nat) < 256"
    and lc: "(of_char c :: nat) < 256" by (rule of_char_less)+
  have "v < 16777216" unfolding v_def using la lb lc by linarith
  then have w: "w = v" unfolding w_def by (rule sextets_recompose)
  show "byte (w div 65536) = a"
    unfolding w v_def by (rule byte_eq) (simp add: bytes_split(1) [OF lb lc])
  show "byte (w div 256) = b"
    unfolding w v_def by (rule byte_eq) (simp only: bytes_split(2) [OF lb lc])
  show "byte w = c"
    unfolding w v_def by (rule byte_eq) (simp only: bytes_split(3) [OF lb lc])
qed

lemma quantum2:
  fixes a b :: char
  defines "v \<equiv> of_char a * 65536 + of_char b * 256 + (0 :: nat)"
  defines "w \<equiv> (v div 262144 mod 64 * 64 + v div 4096 mod 64) * 64 + v div 64 mod 64"
  shows "byte (w div 1024) = a" "byte (w div 4) = b"
proof -
  have la: "(of_char a :: nat) < 256" and lb: "(of_char b :: nat) < 256"
    by (rule of_char_less)+
  have v: "v < 16777216" unfolding v_def using la lb by linarith
  have m: "v mod 64 = 0" unfolding v_def by (simp add: mod_eq_0_iff_dvd)
  have "w * 64 + v mod 64 = v" unfolding w_def by (rule sextets_recompose [OF v])
  then have w: "w = v div 64" using m by simp
  have z: "(0::nat) < 256" by simp
  show "byte (w div 1024) = a"
    unfolding w by (rule byte_eq) (simp add: div_mult2_eq[symmetric] v_def bytes_split(1) [OF lb z])
  show "byte (w div 4) = b"
    unfolding w by (rule byte_eq) (simp add: div_mult2_eq[symmetric] v_def bytes_split(2) [OF lb z])
qed

lemma quantum1:
  fixes a :: char
  defines "v \<equiv> of_char a * 65536 + (0::nat) * 256 + (0 :: nat)"
  defines "w \<equiv> v div 262144 mod 64 * 64 + v div 4096 mod 64"
  shows "byte (w div 16) = a"
proof -
  have la: "(of_char a :: nat) < 256" by (rule of_char_less)
  have v: "v < 16777216" unfolding v_def using la by linarith
  have m: "v mod 64 = 0" "v div 64 mod 64 = 0" unfolding v_def by (simp_all add: mod_eq_0_iff_dvd)
  have "(w * 64 + v div 64 mod 64) * 64 + v mod 64 = v"
    unfolding w_def by (rule sextets_recompose [OF v])
  then have w: "w = v div 4096" using m by simp
  have z: "(0::nat) < 256" by simp
  show "byte (w div 16) = a"
    unfolding w by (rule byte_eq) (simp add: div_mult2_eq[symmetric] v_def bytes_split(1) [OF z z])
qed

lemma decode_quanta_encode: "decode_quanta (b64_encode bs) = Some bs"
proof (induction bs rule: b64_encode.induct)
  case 1
  show ?case by simp
next
  case (2 a)
  show ?case using quantum1 [of a] by (simp add: decode_encode_sextet Let_def)
next
  case (3 a b)
  show ?case using quantum2 [of a b] by (simp add: decode_encode_sextet Let_def)
next
  case (4 a b c rest)
  show ?case using quantum3 [of a b c] 4 by (simp add: decode_encode_sextet Let_def)
qed

lemma b64_encode_chars: "c \<in> set (b64_encode bs) \<Longrightarrow> c \<in> set b64_alphabet \<or> c = padChar"
  by (induction bs rule: b64_encode.induct) (auto simp: Let_def encode_sextet_in)

lemma b64_encode_no_newlines:
  "filter (\<lambda>c. c \<noteq> CHR 0x0D \<and> c \<noteq> CHR 0x0A) (b64_encode bs) = b64_encode bs"
proof -
  have "\<forall>c \<in> set (b64_encode bs). c \<noteq> CHR 0x0D \<and> c \<noteq> CHR 0x0A"
    using b64_encode_chars alphabet_plain by (auto simp: padChar_def)
  then show ?thesis by (simp add: filter_id_conv)
qed

lemma b64_roundtrip [simp]: "b64_decode (b64_encode bs) = Some bs"
  by (simp add: b64_decode_def b64_encode_no_newlines decode_quanta_encode)

lemma b64_encode_inj: "b64_encode x = b64_encode y \<Longrightarrow> x = y"
  by (metis b64_roundtrip option.inject)

subsection \<open>The sealing of the test library\<close>


lemma testlib_aead_correct: "aead_correct testlib"
  by (simp add: aead_correct_def testlib_def t_open_def t_seal_def)


section \<open>Package crypto: encryption and decryption\<close>

lemma rand_read_Some:
  "rand_read n tape = Some (r, tape') \<Longrightarrow> length r = n \<and> tape = r @ tape'"
  by (auto simp: rand_read_def split: if_splits)

lemma rand_read_enough: "n \<le> length tape \<Longrightarrow> rand_read n tape = Some (take n tape, drop n tape)"
  by (simp add: rand_read_def)

lemma EncryptAESGCM_Inr:
  assumes "EncryptAESGCM L key p aad tape = (Inr c, tape')"
  shows "(length key = 16 \<or> length key = 24 \<or> length key = 32) \<and>
         (\<exists>nonce. rand_read 12 tape = Some (nonce, tape') \<and> c = nonce @ gcm_seal L key nonce p aad)"
  using assms
  by (auto simp: EncryptAESGCM_def NewAESGCM_def Seal_def NonceSize_def
           split: if_splits option.splits)

lemma EncryptAESGCM_enough:
  assumes "length key = 16 \<or> length key = 24 \<or> length key = 32" and "12 \<le> length tape"
  shows "EncryptAESGCM L key p aad tape =
           (Inr (take 12 tape @ gcm_seal L key (take 12 tape) p aad), drop 12 tape)"
  using assms
  by (auto simp: EncryptAESGCM_def NewAESGCM_def Seal_def NonceSize_def rand_read_def)

lemma DecryptAESGCM_sealed:
  assumes "aead_correct L" and "length key = 16 \<or> length key = 24 \<or> length key = 32"
    and "length nonce = 12"
  shows "DecryptAESGCM L key (nonce @ gcm_seal L key nonce p aad) aad = Inr p"
proof -
  have "gcm_open L key nonce (gcm_seal L key nonce p aad) aad = Some p"
    using assms unfolding aead_correct_def by blast
  then show ?thesis
    using assms(2,3) by (auto simp: DecryptAESGCM_def NewAESGCM_def Open_def NonceSize_def)
qed


lemma Encrypt_Inr:
  assumes "Encrypt L m p name tape = (Inr ev, tape')"
  shows "\<exists>dek nc nw tape1 tape2.
           rand_read 32 tape = Some (dek, tape1) \<and>
           rand_read 12 tape1 = Some (nc, tape2) \<and>
           rand_read 12 tape2 = Some (nw, tape') \<and>
           (length (mk_key m) = 16 \<or> length (mk_key m) = 24 \<or> length (mk_key m) = 32) \<and>
           ev = \<lparr>WrappedDEK = b64_encode (nw @ gcm_seal L (mk_key m) nw dek []),
                 Ciphertext = b64_encode (nc @ gcm_seal L dek nc p name)\<rparr>"
proof -
  obtain dek tape1 where g: "GenerateDEK tape = (Inr dek, tape1)"
    using assms by (auto simp: Encrypt_def split: prod.splits sum.splits)
  then have r1: "rand_read 32 tape = Some (dek_key dek, tape1)"
    by (auto simp: GenerateDEK_def split: option.splits)
  obtain nonce c tape2 where e: "DEK_Encrypt L dek p name tape1 = (Inr (nonce, c), tape2)"
    using assms g by (auto simp: Encrypt_def split: prod.splits sum.splits)
  then have e': "EncryptAESGCM L (dek_key dek) p name tape1 = (Inr c, tape2)"
    by (auto simp: DEK_Encrypt_def split: prod.splits sum.splits)
  obtain w where w: "wrapDEK L m dek tape2 = (Inr w, tape')"
    and ev: "ev = \<lparr>WrappedDEK = b64_encode w, Ciphertext = b64_encode c\<rparr>"
    using assms g e by (auto simp: Encrypt_def split: prod.splits sum.splits)
  from EncryptAESGCM_Inr [OF e'] obtain nc where
    nc: "rand_read 12 tape1 = Some (nc, tape2)" "c = nc @ gcm_seal L (dek_key dek) nc p name"
    by blast
  from EncryptAESGCM_Inr [OF w [unfolded wrapDEK_def]] obtain nw where
    k: "length (mk_key m) = 16 \<or> length (mk_key m) = 24 \<or> length (mk_key m) = 32" and
    nw: "rand_read 12 tape2 = Some (nw, tape')" "w = nw @ gcm_seal L (mk_key m) nw (dek_key dek) []"
    by blast
  show ?thesis using r1 nc nw k ev by blast
qed

lemma Encrypt_enough:
  assumes "length (mk_key m) = 16 \<or> length (mk_key m) = 24 \<or> length (mk_key m) = 32"
    and "56 \<le> length tape"
  shows "\<exists>ev. Encrypt L m p name tape = (Inr ev, drop 56 tape)"
proof -
  have g: "GenerateDEK tape = (Inr \<lparr>dek_key = take 32 tape\<rparr>, drop 32 tape)"
    using assms(2) by (simp add: GenerateDEK_def rand_read_def)
  have l: "length (take 32 tape) = 32" using assms(2) by simp
  have e: "EncryptAESGCM L (take 32 tape) p name (drop 32 tape) =
             (Inr (take 12 (drop 32 tape) @ gcm_seal L (take 32 tape) (take 12 (drop 32 tape)) p name),
              drop 12 (drop 32 tape))"
    by (rule EncryptAESGCM_enough) (use assms(2) l in auto)
  have w: "EncryptAESGCM L (mk_key m) (take 32 tape) [] (drop 44 tape) =
             (Inr (take 12 (drop 44 tape) @ gcm_seal L (mk_key m) (take 12 (drop 44 tape)) (take 32 tape) []),
              drop 12 (drop 44 tape))"
    by (rule EncryptAESGCM_enough) (use assms in auto)
  show ?thesis
    using g e w l by (simp add: Encrypt_def DEK_Encrypt_def wrapDEK_def NewAESGCM_def)
qed

lemma Decrypt_of_sealed:
  assumes "aead_correct L"
    and "length (mk_key m) = 16 \<or> length (mk_key m) = 24 \<or> length (mk_key m) = 32"
    and "length dek = 32" and "length nw = 12"
  shows "Decrypt L m \<lparr>WrappedDEK = b64_encode (nw @ gcm_seal L (mk_key m) nw dek []),
                       Ciphertext = b64_encode ct\<rparr> name =
           (case DecryptAESGCM L dek ct name of
              Inl err \<Rightarrow> Inl (Errorf ''failed to decrypt'' (Errorf ''failed to decrypt'' err))
            | Inr p \<Rightarrow> Inr p)"
proof -
  have "DecryptAESGCM L (mk_key m) (nw @ gcm_seal L (mk_key m) nw dek []) [] = Inr dek"
    by (rule DecryptAESGCM_sealed [OF assms(1,2,4)])
  then show ?thesis
    by (simp add: Decrypt_def unwrapDEK_def DEKFromBytes_def DEK_Decrypt_def split: sum.splits)
qed

lemma Decrypt_after_Encrypt:
  assumes "aead_correct L" and "Encrypt L m plaintext name tape = (Inr ev, tape')"
  shows "Decrypt L m ev name = Inr plaintext"
proof -
  from Encrypt_Inr [OF assms(2)] obtain dek nc nw tape1 tape2 where
    r: "rand_read 32 tape = Some (dek, tape1)" "rand_read 12 tape1 = Some (nc, tape2)"
       "rand_read 12 tape2 = Some (nw, tape')" and
    k: "length (mk_key m) = 16 \<or> length (mk_key m) = 24 \<or> length (mk_key m) = 32" and
    ev: "ev = \<lparr>WrappedDEK = b64_encode (nw @ gcm_seal L (mk_key m) nw dek []),
               Ciphertext = b64_encode (nc @ gcm_seal L dek nc plaintext name)\<rparr>"
    by blast
  have l: "length dek = 32" "length nc = 12" "length nw = 12"
    using r rand_read_Some by blast+
  have "DecryptAESGCM L dek (nc @ gcm_seal L dek nc plaintext name) name = Inr plaintext"
    by (rule DecryptAESGCM_sealed [OF assms(1)]) (use l in auto)
  then show ?thesis
    unfolding ev using Decrypt_of_sealed [OF assms(1) k l(1,3)] by simp
qed


lemma Encrypt_draws:
  assumes "Encrypt L m p name tape = (Inr ev, tape')"
  shows "56 \<le> length tape \<and> tape' = drop 56 tape \<and>
         (length (mk_key m) = 16 \<or> length (mk_key m) = 24 \<or> length (mk_key m) = 32) \<and>
         ev = \<lparr>WrappedDEK =
                  b64_encode (wrap_nonce tape @ gcm_seal L (mk_key m) (wrap_nonce tape) (data_key tape) []),
               Ciphertext =
                  b64_encode (data_nonce tape @ gcm_seal L (data_key tape) (data_nonce tape) p name)\<rparr>"
proof -
  from Encrypt_Inr [OF assms] obtain dek nc nw tape1 tape2 where
    r: "rand_read 32 tape = Some (dek, tape1)" "rand_read 12 tape1 = Some (nc, tape2)"
       "rand_read 12 tape2 = Some (nw, tape')" and
    k: "length (mk_key m) = 16 \<or> length (mk_key m) = 24 \<or> length (mk_key m) = 32" and
    ev: "ev = \<lparr>WrappedDEK = b64_encode (nw @ gcm_seal L (mk_key m) nw dek []),
               Ciphertext = b64_encode (nc @ gcm_seal L dek nc p name)\<rparr>"
    by blast
  from r(1) have 1: "32 \<le> length tape" "dek = take 32 tape" "tape1 = drop 32 tape"
    by (auto simp: rand_read_def split: if_splits)
  from r(2) have 2: "12 \<le> length tape1" "nc = take 12 tape1" "tape2 = drop 12 tape1"
    by (auto simp: rand_read_def split: if_splits)
  from r(3) have 3: "12 \<le> length tape2" "nw = take 12 tape2" "tape' = drop 12 tape2"
    by (auto simp: rand_read_def split: if_splits)
  have "56 \<le> length tape" using 1 2 3 by simp
  moreover have "tape' = drop 56 tape" using 1 2 3 by simp
  moreover have "dek = data_key tape" "nc = data_nonce tape" "nw = wrap_nonce tape"
    using 1 2 3 by (simp_all add: data_key_def data_nonce_def wrap_nonce_def)
  ultimately show ?thesis using k ev by simp
qed

lemma nonce_prefix_differs:
  assumes "length n1 = 12" "length n2 = 12" "n1 \<noteq> n2"
  shows "b64_encode (n1 @ x) \<noteq> b64_encode (n2 @ y)"
proof
  assume "b64_encode (n1 @ x) = b64_encode (n2 @ y)"
  then have "n1 @ x = n2 @ y" by (rule b64_encode_inj)
  then show False using assms by simp
qed

lemma Encrypt_twice:
  assumes "aead_correct L"
    and "Encrypt L m plaintext name tape1 = (Inr ev1, tape1')"
    and "Encrypt L m plaintext name tape2 = (Inr ev2, tape2')"
    and "data_nonce tape1 \<noteq> data_nonce tape2"
    and "wrap_nonce tape1 \<noteq> wrap_nonce tape2"
  shows "WrappedDEK ev1 \<noteq> WrappedDEK ev2 \<and> Ciphertext ev1 \<noteq> Ciphertext ev2 \<and>
         Decrypt L m ev1 name = Inr plaintext \<and> Decrypt L m ev2 name = Inr plaintext"
proof -
  note d1 = Encrypt_draws [OF assms(2)] and d2 = Encrypt_draws [OF assms(3)]
  have l: "length (data_nonce tape1) = 12" "length (data_nonce tape2) = 12"
          "length (wrap_nonce tape1) = 12" "length (wrap_nonce tape2) = 12"
  proof -
    have "56 \<le> length tape1" "56 \<le> length tape2" using d1 d2 by blast+
    then show "length (data_nonce tape1) = 12" "length (data_nonce tape2) = 12"
          "length (wrap_nonce tape1) = 12" "length (wrap_nonce tape2) = 12"
      by (simp_all add: data_nonce_def wrap_nonce_def)
  qed
  have "WrappedDEK ev1 \<noteq> WrappedDEK ev2"
    using d1 d2 nonce_prefix_differs [OF l(3,4) assms(5)] by simp
  moreover have "Ciphertext ev1 \<noteq> Ciphertext ev2"
    using d1 d2 nonce_prefix_differs [OF l(1,2) assms(4)] by simp
  ultimately show ?thesis
    using Decrypt_after_Encrypt [OF assms(1,2)] Decrypt_after_Encrypt [OF assms(1,3)] by simp
qed

subsection \<open>Parsing the persisted form\<close>

lemma ParseEncryptedValue_unfold:
  "ParseEncryptedValue s =
     (if \<not> HasPrefix s ''envx:'' then Inl (ErrorString ''not an encrypted value'')
      else if CHR '':'' \<notin> set (drop 5 s) then Inl (ErrorString ''invalid encrypted value format'')
      else Inr \<lparr>WrappedDEK = takeWhile (\<lambda>c. c \<noteq> CHR '':'') (drop 5 s),
                Ciphertext = tl (dropWhile (\<lambda>c. c \<noteq> CHR '':'') (drop 5 s))\<rparr>)"
proof -
  have l: "length EncryptedValuePrefix = 5" by (simp add: EncryptedValuePrefix_def)
  show ?thesis
    unfolding ParseEncryptedValue_def l
    by (simp add: EncryptedValuePrefix_def SplitN2_def Let_def)
qed

lemma Decrypt_error_shape: "Decrypt L m ev name \<noteq> Inl (ErrorString msg)"
  by (simp add: Decrypt_def split: option.splits sum.splits)

lemma three_segments_parse:
  "ParseEncryptedValue ''envx:a:b:c'' = Inr \<lparr>WrappedDEK = ''a'', Ciphertext = ''b:c''\<rparr> \<and>
   \<not> spec_accepts_encrypted_value ''envx:a:b:c'' \<and>
   ParseEncryptedValue ''plaintext-value'' = Inl (ErrorString ''not an encrypted value'') \<and>
   ParseEncryptedValue ''envx:only-one-part'' = Inl (ErrorString ''invalid encrypted value format'')"
  by (simp add: ParseEncryptedValue_unfold HasPrefix_def spec_accepts_encrypted_value_def
        EncryptedValuePrefix_def)

section \<open>The claims about package crypto\<close>

text \<open>
  C1. For every master key, plaintext and secret name: when \<open>Encrypt\<close> returns an
  \<open>EncryptedValue\<close>, \<open>Decrypt\<close> with the same master key and the same name returns
  exactly the plaintext. (\<open>Encrypt\<close> returns a value whenever the master key has an AES
  key size and the random source delivers 56 bytes: lemma \<open>Encrypt_enough\<close>.)
\<close>

theorem Decrypt_Encrypt:
  assumes "aead_correct L" and "Encrypt L m plaintext name tape = (Inr ev, tape')"
  shows "Decrypt L m ev name = Inr plaintext"
  using assms by (rule Decrypt_after_Encrypt)

theorem Decrypt_Encrypt_witness:
  "\<exists>ev tape'. Encrypt testlib \<lparr>mk_key = replicate 32 (CHR ''k'')\<rparr> ''s3cret'' ''API_KEY''
                 (replicate 56 (CHR ''r'')) = (Inr ev, tape') \<and>
      Decrypt testlib \<lparr>mk_key = replicate 32 (CHR ''k'')\<rparr> ev ''API_KEY'' = Inr ''s3cret''"
proof -
  have "\<exists>ev. Encrypt testlib \<lparr>mk_key = replicate 32 (CHR ''k'')\<rparr> ''s3cret'' ''API_KEY''
                 (replicate 56 (CHR ''r'')) = (Inr ev, drop 56 (replicate 56 (CHR ''r'')))"
    by (rule Encrypt_enough) simp_all
  then obtain ev tape' where e: "Encrypt testlib \<lparr>mk_key = replicate 32 (CHR ''k'')\<rparr> ''s3cret''
                 ''API_KEY'' (replicate 56 (CHR ''r'')) = (Inr ev, tape')"
    by blast
  show ?thesis
    using Decrypt_Encrypt [OF testlib_aead_correct e] e by blast
qed



text \<open>
  C5. Two calls of \<open>Encrypt\<close> with the same master key, plaintext and name, whose fresh
  randomness differs in both nonces, return values that differ in \<open>WrappedDEK\<close> and in
  \<open>Ciphertext\<close>, and each of the two decrypts to the plaintext.
\<close>

theorem Encrypt_fresh:
  assumes "aead_correct L"
    and "Encrypt L m plaintext name tape1 = (Inr ev1, tape1')"
    and "Encrypt L m plaintext name tape2 = (Inr ev2, tape2')"
    and "data_nonce tape1 \<noteq> data_nonce tape2"
    and "wrap_nonce tape1 \<noteq> wrap_nonce tape2"
  shows "WrappedDEK ev1 \<noteq> WrappedDEK ev2 \<and> Ciphertext ev1 \<noteq> Ciphertext ev2 \<and>
         Decrypt L m ev1 name = Inr plaintext \<and> Decrypt L m ev2 name = Inr plaintext"
  using assms by (rule Encrypt_twice)

theorem Encrypt_fresh_witness:
  "\<exists>ev1 ev2 tape1' tape2'.
      Encrypt testlib \<lparr>mk_key = replicate 32 (CHR ''k'')\<rparr> ''s3cret'' ''API_KEY''
        (replicate 56 (CHR ''r'')) = (Inr ev1, tape1') \<and>
      Encrypt testlib \<lparr>mk_key = replicate 32 (CHR ''k'')\<rparr> ''s3cret'' ''API_KEY''
        (replicate 56 (CHR ''s'')) = (Inr ev2, tape2') \<and>
      WrappedDEK ev1 \<noteq> WrappedDEK ev2 \<and> Ciphertext ev1 \<noteq> Ciphertext ev2 \<and>
      Decrypt testlib \<lparr>mk_key = replicate 32 (CHR ''k'')\<rparr> ev1 ''API_KEY'' = Inr ''s3cret'' \<and>
      Decrypt testlib \<lparr>mk_key = replicate 32 (CHR ''k'')\<rparr> ev2 ''API_KEY'' = Inr ''s3cret''"
proof -
  have "\<exists>ev. Encrypt testlib \<lparr>mk_key = replicate 32 (CHR ''k'')\<rparr> ''s3cret'' ''API_KEY''
                 (replicate 56 (CHR ''r'')) = (Inr ev, drop 56 (replicate 56 (CHR ''r'')))"
    by (rule Encrypt_enough) simp_all
  then obtain ev1 tape1' where e1: "Encrypt testlib \<lparr>mk_key = replicate 32 (CHR ''k'')\<rparr>
                 ''s3cret'' ''API_KEY'' (replicate 56 (CHR ''r'')) = (Inr ev1, tape1')"
    by blast
  have "\<exists>ev. Encrypt testlib \<lparr>mk_key = replicate 32 (CHR ''k'')\<rparr> ''s3cret'' ''API_KEY''
                 (replicate 56 (CHR ''s'')) = (Inr ev, drop 56 (replicate 56 (CHR ''s'')))"
    by (rule Encrypt_enough) simp_all
  then obtain ev2 tape2' where e2: "Encrypt testlib \<lparr>mk_key = replicate 32 (CHR ''k'')\<rparr>
                 ''s3cret'' ''API_KEY'' (replicate 56 (CHR ''s'')) = (Inr ev2, tape2')"
    by blast
  have d: "data_nonce (replicate 56 (CHR ''r'')) \<noteq> data_nonce (replicate 56 (CHR ''s''))"
    by (simp add: data_nonce_def)
  have w: "wrap_nonce (replicate 56 (CHR ''r'')) \<noteq> wrap_nonce (replicate 56 (CHR ''s''))"
    by (simp add: wrap_nonce_def)
  show ?thesis
    using Encrypt_fresh [OF testlib_aead_correct e1 e2 d w] e1 e2 by blast
qed

text \<open>
  C7, as the claim states it, fails: the remainder \<open>a:b:c\<close> has three colon-separated
  segments, and \<open>ParseEncryptedValue\<close> accepts it, since \<open>strings.SplitN\<close> with the
  limit 2 cuts at the first colon only. The rejected inputs do not share one error
  either: a missing prefix and a missing colon are told apart.
\<close>

theorem ParseEncryptedValue_three_segments:
  "ParseEncryptedValue ''envx:a:b:c'' = Inr \<lparr>WrappedDEK = ''a'', Ciphertext = ''b:c''\<rparr> \<and>
   \<not> spec_accepts_encrypted_value ''envx:a:b:c'' \<and>
   ParseEncryptedValue ''plaintext-value'' = Inl (ErrorString ''not an encrypted value'') \<and>
   ParseEncryptedValue ''envx:only-one-part'' = Inl (ErrorString ''invalid encrypted value format'')"
  by (rule three_segments_parse)

text \<open>
  C7, amended. \<open>ParseEncryptedValue\<close> succeeds exactly on the strings that start with
  \<open>envx:\<close> and whose remainder contains a colon; \<open>WrappedDEK\<close> is the remainder up to its
  first colon and \<open>Ciphertext\<close> everything after that colon (further colons included),
  and either may be empty. A string without the prefix is rejected with the error
  \<open>not an encrypted value\<close>, a remainder without a colon with the error
  \<open>invalid encrypted value format\<close>; \<open>Decrypt\<close> returns neither of them, nor any other
  plain error text.
\<close>

theorem ParseEncryptedValue_cases:
  "ParseEncryptedValue s =
     (if \<not> HasPrefix s ''envx:'' then Inl (ErrorString ''not an encrypted value'')
      else if CHR '':'' \<notin> set (drop 5 s) then Inl (ErrorString ''invalid encrypted value format'')
      else Inr \<lparr>WrappedDEK = takeWhile (\<lambda>c. c \<noteq> CHR '':'') (drop 5 s),
                Ciphertext = tl (dropWhile (\<lambda>c. c \<noteq> CHR '':'') (drop 5 s))\<rparr>) \<and>
   Decrypt L m ev name \<noteq> Inl (ErrorString msg)"
  by (simp only: ParseEncryptedValue_unfold Decrypt_error_shape simp_thms)

subsection \<open>The JSON text of the test library\<close>

lemma hex_value_digit: "hex_value (hex_digit v) = Some (v mod 16)"
proof -
  have d: "distinct hextable" and l: "length hextable = 16"
    by (simp_all add: hextable_def)
  have "v mod 16 < length hextable" using l by simp
  then show ?thesis
    unfolding hex_value_def hex_digit_def using d index_of_nth by auto
qed

lemma hex_digit_in: "hex_digit v \<in> set hextable"
proof -
  have "length hextable = 16" by (simp add: hextable_def)
  then show ?thesis unfolding hex_digit_def by simp
qed

lemma hex_digit_not_quote [simp]: "hex_digit v \<noteq> quote" "quote \<noteq> hex_digit v"
  using hex_digit_in [of v] by (auto simp: quote_def hextable_def)

lemma hex_digit_not_newline [simp]: "hex_digit v \<noteq> newline" "newline \<noteq> hex_digit v"
  using hex_digit_in [of v] by (auto simp: newline_def hextable_def)

lemma quote_other [simp]:
  "quote \<noteq> CHR ''n''" "quote \<noteq> CHR ''t''" "quote \<noteq> CHR ''f''" "quote \<noteq> CHR ''+''"
  "quote \<noteq> CHR ''-''" "quote \<noteq> CHR ''[''" "quote \<noteq> CHR ''{''" "quote \<noteq> CHR '']''"
  "quote \<noteq> CHR ''}''" "quote \<noteq> newline"
  "CHR ''['' \<noteq> quote" "CHR ''{'' \<noteq> quote" "CHR '']'' \<noteq> quote" "CHR ''}'' \<noteq> quote"
  by (simp_all add: quote_def newline_def)

lemma hex_roundtrip: "hex_decode (hex_encode s) = Some s"
proof (induction s)
  case Nil
  show ?case by simp
next
  case (Cons b s)
  have "(of_char b :: nat) < 16 * 16" using of_char_less [of b] by linarith
  then have "(of_char b :: nat) div 16 < 16" by (rule less_mult_imp_div_less)
  then have "(of_char b :: nat) div 16 mod 16 * 16 + of_char b mod 16 = of_char b" by simp
  then have "byte ((of_char b :: nat) div 16 mod 16 * 16 + of_char b mod 16) = b"
    by (simp add: byte_def)
  then show ?case using Cons by (simp add: hex_value_digit)
qed

lemma hex_no_quote: "quote \<notin> set (hex_encode s)"
  by (induction s) simp_all

lemma hex_no_newline: "newline \<notin> set (hex_encode s)"
  by (induction s) simp_all

lemma length_hex_encode: "length (hex_encode s) = 2 * length s"
  by (induction s) simp_all

lemma t_take_quoted_hex: "t_take_quoted (hex_encode s @ quote # r) = Some (s, r)"
proof -
  have "\<forall>c \<in> set (hex_encode s). c \<noteq> quote" using hex_no_quote by blast
  then have "takeWhile (\<lambda>c. c \<noteq> quote) (hex_encode s @ quote # r) = hex_encode s"
    and "dropWhile (\<lambda>c. c \<noteq> quote) (hex_encode s @ quote # r) = quote # r"
    by (simp_all add: takeWhile_append2 dropWhile_append2)
  then show ?thesis by (simp add: t_take_quoted_def hex_roundtrip)
qed

lemma t_take_num_ones: "t_take_num (replicate n (CHR ''1'') @ CHR '';'' # r) = Some (int n, r)"
proof -
  have "takeWhile (\<lambda>c. c = CHR ''1'') (replicate n (CHR ''1'') @ CHR '';'' # r) = replicate n (CHR ''1'')"
    and "dropWhile (\<lambda>c. c = CHR ''1'') (replicate n (CHR ''1'') @ CHR '';'' # r) = CHR '';'' # r"
    by (induction n) simp_all
  then show ?thesis by (simp add: t_take_num_def)
qed

lemma t_ser_first:
  "\<exists>c cs. t_ser v = c # cs \<and> c \<noteq> CHR '']'' \<and> c \<noteq> CHR ''}''"
  by (cases v) (auto simp: t_num_def t_quote_def)

lemma t_value_atom:
  "t_value (Suc n) (t_ser JNull @ r) = Some (JNull, r)"
  "t_value (Suc n) (t_ser (JBool b) @ r) = Some (JBool b, r)"
  "t_value (Suc n) (t_ser (JNumber i) @ r) = Some (JNumber i, r)"
  "t_value (Suc n) (t_ser (JString s) @ r) = Some (JString s, r)"
proof -
  show "t_value (Suc n) (t_ser JNull @ r) = Some (JNull, r)" by simp
  show "t_value (Suc n) (t_ser (JBool b) @ r) = Some (JBool b, r)" by simp
  show "t_value (Suc n) (t_ser (JNumber i) @ r) = Some (JNumber i, r)"
    by (simp add: t_num_def t_take_num_ones)
  show "t_value (Suc n) (t_ser (JString s) @ r) = Some (JString s, r)"
    by (simp add: t_quote_def t_take_quoted_hex)
qed

lemma t_elems_all:
  "(\<forall>v \<in> set vs. \<forall>n r. length (t_ser v) \<le> n \<longrightarrow> t_value n (t_ser v @ r) = Some (v, r)) \<Longrightarrow>
   length (concat (map t_ser vs)) < n \<Longrightarrow>
   t_elems n (concat (map t_ser vs) @ CHR '']'' # r) = Some (vs, r)"
proof (induction vs arbitrary: n)
  case Nil
  then obtain k where "n = Suc k" by (cases n) auto
  then show ?case by simp
next
  case (Cons v vs)
  obtain c cs where f: "t_ser v = c # cs" "c \<noteq> CHR '']''" using t_ser_first by blast
  from Cons.prems(2) obtain k where n: "n = Suc k" by (cases n) auto
  have lv: "length (t_ser v) \<le> k" and lr: "length (concat (map t_ser vs)) < k"
    using Cons.prems(2) n f by simp_all
  have v: "t_value k (t_ser v @ concat (map t_ser vs) @ CHR '']'' # r)
             = Some (v, concat (map t_ser vs) @ CHR '']'' # r)"
    using Cons.prems(1) lv by simp
  have r: "t_elems k (concat (map t_ser vs) @ CHR '']'' # r) = Some (vs, r)"
    by (rule Cons.IH [OF _ lr]) (use Cons.prems(1) in simp)
  have "t_elems (Suc k) (c # cs @ concat (map t_ser vs) @ CHR '']'' # r) = Some (v # vs, r)"
    using f v r by simp
  then show ?case using n f by simp
qed

lemma t_members_all:
  "(\<forall>kv \<in> set kvs. \<forall>n r. length (t_ser (snd kv)) \<le> n \<longrightarrow>
       t_value n (t_ser (snd kv) @ r) = Some (snd kv, r)) \<Longrightarrow>
   length (concat (map (\<lambda>kv. t_quote (fst kv) @ t_ser (snd kv)) kvs)) < n \<Longrightarrow>
   t_members n (concat (map (\<lambda>kv. t_quote (fst kv) @ t_ser (snd kv)) kvs) @ CHR ''}'' # r)
     = Some (kvs, r)"
proof (induction kvs arbitrary: n)
  case Nil
  then obtain k where "n = Suc k" by (cases n) auto
  then show ?case by simp
next
  case (Cons kv kvs)
  obtain key v where kv: "kv = (key, v)" by (cases kv)
  let ?rest = "concat (map (\<lambda>kv. t_quote (fst kv) @ t_ser (snd kv)) kvs)"
  from Cons.prems(2) obtain k where n: "n = Suc k" by (cases n) auto
  have lv: "length (t_ser v) \<le> k" and lr: "length ?rest < k"
    using Cons.prems(2) n kv by (simp_all add: t_quote_def)
  have v: "t_value k (t_ser v @ ?rest @ CHR ''}'' # r) = Some (v, ?rest @ CHR ''}'' # r)"
    using Cons.prems(1) lv kv by simp
  have r: "t_members k (?rest @ CHR ''}'' # r) = Some (kvs, r)"
    by (rule Cons.IH [OF _ lr]) (use Cons.prems(1) in simp)
  have "t_members (Suc k) (quote # hex_encode key @ quote # t_ser v @ ?rest @ CHR ''}'' # r)
          = Some ((key, v) # kvs, r)"
    using v r by (simp add: t_take_quoted_hex)
  then show ?case using n kv by (simp add: t_quote_def)
qed

lemma t_value_ser: "length (t_ser v) \<le> n \<Longrightarrow> t_value n (t_ser v @ r) = Some (v, r)"
proof (induction v arbitrary: n r)
  case JNull
  then obtain k where "n = Suc k" by (cases n) auto
  then show ?case using t_value_atom(1) by simp
next
  case (JBool b)
  then obtain k where "n = Suc k" by (cases n) (auto split: if_splits)
  then show ?case using t_value_atom(2) by simp
next
  case (JNumber i)
  then obtain k where "n = Suc k" by (cases n) (auto simp: t_num_def)
  then show ?case using t_value_atom(3) by simp
next
  case (JString s)
  then obtain k where "n = Suc k" by (cases n) (auto simp: t_quote_def)
  then show ?case using t_value_atom(4) by simp
next
  case (JArray vs)
  from JArray.prems obtain k where n: "n = Suc k" by (cases n) auto
  have l: "length (concat (map t_ser vs)) < k" using JArray.prems n by simp
  have "t_elems k (concat (map t_ser vs) @ CHR '']'' # r) = Some (vs, r)"
    by (rule t_elems_all [OF _ l]) (use JArray.IH in blast)
  then show ?case using n by simp
next
  case (JObject kvs)
  from JObject.prems obtain k where n: "n = Suc k" by (cases n) auto
  let ?body = "concat (map (\<lambda>kv. t_quote (fst kv) @ t_ser (snd kv)) kvs)"
  have l: "length ?body < k" using JObject.prems n by simp
  have "\<forall>kv \<in> set kvs. \<forall>n r. length (t_ser (snd kv)) \<le> n \<longrightarrow>
          t_value n (t_ser (snd kv) @ r) = Some (snd kv, r)"
  proof (intro ballI allI impI)
    fix kv m r'
    assume a: "kv \<in> set kvs" and b: "length (t_ser (snd kv)) \<le> m"
    have "snd kv \<in> Basic_BNFs.snds kv" by (cases kv) simp
    from JObject.IH [OF a this b]
    show "t_value m (t_ser (snd kv) @ r') = Some (snd kv, r')" .
  qed
  then have "t_members k (?body @ CHR ''}'' # r) = Some (kvs, r)"
    by (rule t_members_all [OF _ l])
  then show ?case using n by simp
qed

lemma t_unmarshal_ser: "t_unmarshal (t_ser v) = Some v"
  using t_value_ser [of v "length (t_ser v)" "[]"] by (simp add: t_unmarshal_def)

lemma testlib_json_lossless: "json_lossless testlib"
  by (simp add: json_lossless_def testlib_def t_unmarshal_ser)

lemma testlib_sha256_size: "sha256_size testlib"
  by (auto simp: sha256_size_def testlib_def t_sha256_def min_def)

lemma t_parse_format: "t_parse (t_format t) = Some (truncate_second t)"
proof -
  have "t_value 1 (t_ser (JNumber (t div 1000000000)) @ []) = Some (JNumber (t div 1000000000), [])"
    unfolding One_nat_def by (rule t_value_atom(3))
  then have "t_parse (t_format t) = Some (t div 1000000000 * 1000000000)"
    by (simp add: t_parse_def t_format_def)
  moreover have "t div 1000000000 * 1000000000 = t - t mod 1000000000"
    by (simp add: minus_mod_eq_div_mult)
  ultimately show ?thesis by (simp add: truncate_second_def)
qed

lemma testlib_rfc3339_seconds: "rfc3339_seconds testlib"
  by (simp add: rfc3339_seconds_def testlib_def t_parse_format)

section \<open>Package envelope: expiry\<close>

lemma decrypt_entries_not_expired: "decrypt_entries L sk es acc \<noteq> Inl ErrExpired"
  by (induction es arbitrary: acc) (auto split: sum.splits)

lemma Unwrap_expired_iff: "Unwrap L e now = Inl ErrExpired \<longleftrightarrow> ExpiresAt e < now"
  by (auto simp: Unwrap_def Let_def decrypt_entries_not_expired split: sum.splits)

lemma Inspect_status:
  "Status (Inspect e now) = (if ExpiresAt e < now then ''expired'' else ''valid'')"
  by (simp add: Inspect_def)

section \<open>Package envelope: the token\<close>




lemma scope_strings_all: "scope_strings (map JString xs) acc = acc @ xs"
  by (induction xs arbitrary: acc) simp_all

lemma HasPrefix_append [simp]: "HasPrefix (pre @ s) pre"
  by (simp add: HasPrefix_def)



lemma decode_secrets_map:
  "distinct (map fst es) \<Longrightarrow>
   map_of (decode_secrets es acc) key =
     (case decoded_entry es key of Some ct \<Rightarrow> Some ct | None \<Rightarrow> map_of acc key)"
proof (induction es arbitrary: acc)
  case Nil
  show ?case by (simp add: decoded_entry_def)
next
  case (Cons kv es)
  obtain k v where kv: "kv = (k, v)" by (cases kv)
  have d: "distinct (map fst es)" and n: "k \<notin> fst ` set es" using Cons.prems kv by auto
  have none: "map_of es k = None" using n by (simp add: map_of_eq_None_iff)
  have out: "decoded_entry es k = None" by (simp add: decoded_entry_def none)
  have other: "key \<noteq> k \<Longrightarrow> decoded_entry ((k, v) # es) key = decoded_entry es key"
    by (simp add: decoded_entry_def)
  show ?case
  proof (cases "key = k")
    case True
    show ?thesis
      using Cons.IH [OF d] kv True out
      by (cases v) (auto simp: decoded_entry_def update_conv' split: option.splits)
  next
    case False
    show ?thesis
      using Cons.IH [OF d] kv False other
      by (cases v) (auto simp: update_conv' split: option.splits)
  qed
qed

lemma Parse_well_formed:
  assumes "HasPrefix s prefix_v1"
    and "b64_decode (drop (length prefix_v1) s) = Some payload"
    and "unmarshal_map L payload = Some raw"
    and "rfc3339_parse L (string_field raw ''created_at'') = Some createdAt"
    and "rfc3339_parse L (string_field raw ''expires_at'') = Some expiresAt"
    and "b64_decode (string_field raw ''unwrap_secret'') = Some unwrapSecret"
    and "b64_decode (string_field raw ''wrapped_session_key'') = Some wrappedSessionKey"
  shows "\<exists>e. Parse L s = Inr e \<and> SessionID e = string_field raw ''session_id'' \<and>
           CreatedAt e = createdAt \<and> ExpiresAt e = expiresAt \<and>
           UnwrapSecret e = unwrapSecret \<and> WrappedSessionKey e = wrappedSessionKey \<and>
           EncryptedSecrets e = decode_secrets (secrets_field raw) []"
  using assms by (simp add: Parse_def Let_def secrets_field_def)

section \<open>Package envelope: Create and Unwrap\<close>















section \<open>Package envelope: the whole path of a bundle\<close>





lemma b64_decode_bang: "b64_decode ''!'' = None"
  by (simp add: b64_decode_def)

lemma Parse_bad_unwrap_secret:
  "well_formed_token testlib
     (prefix_v1 @ b64_encode (json_marshal testlib (JObject
        [(''created_at'', JString (rfc3339_format testlib 0)),
         (''expires_at'', JString (rfc3339_format testlib 0)),
         (''unwrap_secret'', JString ''!'')]))) \<and>
   Parse testlib
     (prefix_v1 @ b64_encode (json_marshal testlib (JObject
        [(''created_at'', JString (rfc3339_format testlib 0)),
         (''expires_at'', JString (rfc3339_format testlib 0)),
         (''unwrap_secret'', JString ''!'')]))) =
     Inl (ErrorfOf ErrInvalidFormat ''decode unwrap_secret''
            (Some (LibError ''base64.CorruptInputError'')))"
proof -
  have j: "\<And>v. json_unmarshal testlib (json_marshal testlib v) = Some v"
    using testlib_json_lossless by (simp add: json_lossless_def)
  have p: "\<And>t. rfc3339_parse testlib (rfc3339_format testlib t) = Some (truncate_second t)"
    using testlib_rfc3339_seconds by (simp add: rfc3339_seconds_def)
  show ?thesis
    by (simp add: well_formed_token_def Parse_def unmarshal_map_def j p string_field_def
          b64_decode_bang Let_def)
qed

lemma Parse_drops_undecodable:
  assumes "HasPrefix s prefix_v1"
    and "b64_decode (drop (length prefix_v1) s) = Some payload"
    and "unmarshal_map L payload = Some raw"
    and "rfc3339_parse L (string_field raw ''created_at'') = Some createdAt"
    and "rfc3339_parse L (string_field raw ''expires_at'') = Some expiresAt"
    and "b64_decode (string_field raw ''unwrap_secret'') = Some unwrapSecret"
    and "b64_decode (string_field raw ''wrapped_session_key'') = Some wrappedSessionKey"
    and "distinct (map fst (secrets_field raw))"
  shows "\<exists>e. Parse L s = Inr e \<and>
           (\<forall>key. map_of (EncryptedSecrets e) key = decoded_entry (secrets_field raw) key)"
proof -
  from Parse_well_formed [OF assms(1-7)] obtain e where
    e: "Parse L s = Inr e" "EncryptedSecrets e = decode_secrets (secrets_field raw) []"
    by blast
  have "map_of (EncryptedSecrets e) key = decoded_entry (secrets_field raw) key" for key
    unfolding e(2) decode_secrets_map [OF assms(8)] by (simp split: option.splits)
  then show ?thesis using e(1) by blast
qed

section \<open>The claims about package envelope\<close>




text \<open>
  C6, as the claim states it, fails at the instant \<open>now = expiresAt\<close>: the claim calls the
  bundle expired there, but \<open>Inspect\<close> reports \<open>valid\<close> and \<open>Unwrap\<close> does not answer
  \<open>ErrExpired\<close>. Both use \<open>After\<close>, which is strict.
\<close>

theorem valid_at_expiresAt:
  "ExpiresAt \<lparr>SessionID = ''s'', CreatedAt = 0, ExpiresAt = 5, Scope = [], UnwrapSecret = [],
              WrappedSessionKey = [], EncryptedSecrets = []\<rparr> \<le> 5 \<and>
   Status (Inspect \<lparr>SessionID = ''s'', CreatedAt = 0, ExpiresAt = 5, Scope = [],
                    UnwrapSecret = [], WrappedSessionKey = [], EncryptedSecrets = []\<rparr> 5) = ''valid'' \<and>
   Unwrap testlib \<lparr>SessionID = ''s'', CreatedAt = 0, ExpiresAt = 5, Scope = [],
                   UnwrapSecret = [], WrappedSessionKey = [], EncryptedSecrets = []\<rparr> 5
     \<noteq> Inl ErrExpired"
  by (simp add: Inspect_status Unwrap_expired_iff)

text \<open>
  C6, amended. For every bundle and every current time the bundle is valid when
  \<open>now \<le> expiresAt\<close> and expired when \<open>now > expiresAt\<close>: \<open>Unwrap\<close> fails with \<open>ErrExpired\<close>,
  and \<open>Inspect\<close> reports \<open>expired\<close>, exactly in the latter case. The answer \<open>ErrExpired\<close>
  depends on nothing but the two times, whatever the library and the rest of the
  bundle are: the check comes before every cryptographic operation, and \<open>Unwrap\<close> and
  \<open>Inspect\<close> compare in the same way.
\<close>

theorem expiry_is_strict:
  "(Unwrap L e now = Inl ErrExpired \<longleftrightarrow> ExpiresAt e < now) \<and>
   (Status (Inspect e now) = ''expired'' \<longleftrightarrow> ExpiresAt e < now) \<and>
   (Status (Inspect e now) = ''valid'' \<longleftrightarrow> now \<le> ExpiresAt e)"
  by (auto simp: Unwrap_expired_iff Inspect_status)

text \<open>
  C9, as the claim states it, fails: prefix, base64 payload, outer JSON and timestamps
  of this token are well formed, but its \<open>unwrap_secret\<close> is no valid base64, and
  \<open>Parse\<close> rejects the token.
\<close>

theorem Parse_rejects_bad_unwrap_secret:
  "well_formed_token testlib
     (prefix_v1 @ b64_encode (json_marshal testlib (JObject
        [(''created_at'', JString (rfc3339_format testlib 0)),
         (''expires_at'', JString (rfc3339_format testlib 0)),
         (''unwrap_secret'', JString ''!'')]))) \<and>
   Parse testlib
     (prefix_v1 @ b64_encode (json_marshal testlib (JObject
        [(''created_at'', JString (rfc3339_format testlib 0)),
         (''expires_at'', JString (rfc3339_format testlib 0)),
         (''unwrap_secret'', JString ''!'')]))) =
     Inl (ErrorfOf ErrInvalidFormat ''decode unwrap_secret''
            (Some (LibError ''base64.CorruptInputError'')))"
  by (rule Parse_bad_unwrap_secret)

text \<open>
  C9, amended. \<open>Parse\<close> of a token whose prefix, base64 payload, outer JSON and
  timestamps are well formed, and whose \<open>unwrap_secret\<close> and \<open>wrapped_session_key\<close> are
  valid base64, succeeds even when values of the \<open>encrypted_secrets\<close> object are not
  valid base64: the parsed map holds exactly the entries whose value is a string of
  valid base64, decoded, and every other entry is left out.
\<close>

theorem Parse_skips_undecodable_entries:
  assumes "HasPrefix s prefix_v1"
    and "b64_decode (drop (length prefix_v1) s) = Some payload"
    and "unmarshal_map L payload = Some raw"
    and "rfc3339_parse L (string_field raw ''created_at'') = Some createdAt"
    and "rfc3339_parse L (string_field raw ''expires_at'') = Some expiresAt"
    and "b64_decode (string_field raw ''unwrap_secret'') = Some unwrapSecret"
    and "b64_decode (string_field raw ''wrapped_session_key'') = Some wrappedSessionKey"
    and "distinct (map fst (secrets_field raw))"
  shows "\<exists>e. Parse L s = Inr e \<and>
           (\<forall>key. map_of (EncryptedSecrets e) key = decoded_entry (secrets_field raw) key)"
  using assms by (rule Parse_drops_undecodable)

theorem Parse_skips_undecodable_entries_witness:
  "\<exists>e. Parse testlib
          (prefix_v1 @ b64_encode (json_marshal testlib (JObject
             [(''created_at'', JString (rfc3339_format testlib 0)),
              (''expires_at'', JString (rfc3339_format testlib 0)),
              (''encrypted_secrets'',
                 JObject [(''GOOD'', JString (b64_encode ''ABC'')), (''BAD'', JString ''!!!'')])])))
        = Inr e \<and>
       map_of (EncryptedSecrets e) ''GOOD'' = Some ''ABC'' \<and>
       map_of (EncryptedSecrets e) ''BAD'' = None"
proof -
  let ?raw = "[(''created_at'', JString (rfc3339_format testlib 0)),
               (''expires_at'', JString (rfc3339_format testlib 0)),
               (''encrypted_secrets'',
                  JObject [(''GOOD'', JString (b64_encode ''ABC'')), (''BAD'', JString ''!!!'')])]"
  let ?s = "prefix_v1 @ b64_encode (json_marshal testlib (JObject ?raw))"
  have j: "\<And>v. json_unmarshal testlib (json_marshal testlib v) = Some v"
    using testlib_json_lossless by (simp add: json_lossless_def)
  have p: "\<And>t. rfc3339_parse testlib (rfc3339_format testlib t) = Some (truncate_second t)"
    using testlib_rfc3339_seconds by (simp add: rfc3339_seconds_def)
  have h1: "HasPrefix ?s prefix_v1" by simp
  have h2: "b64_decode (drop (length prefix_v1) ?s) = Some (json_marshal testlib (JObject ?raw))"
    by simp
  have h3: "unmarshal_map testlib (json_marshal testlib (JObject ?raw)) = Some ?raw"
    by (simp add: unmarshal_map_def j)
  have h4: "rfc3339_parse testlib (string_field ?raw ''created_at'') = Some (truncate_second 0)"
    and h5: "rfc3339_parse testlib (string_field ?raw ''expires_at'') = Some (truncate_second 0)"
    by (simp_all add: string_field_def p)
  have h6: "b64_decode (string_field ?raw ''unwrap_secret'') = Some []"
    and h7: "b64_decode (string_field ?raw ''wrapped_session_key'') = Some []"
    by (simp_all add: string_field_def b64_decode_def)
  have h8: "distinct (map fst (secrets_field ?raw))" by (simp add: secrets_field_def)
  from Parse_skips_undecodable_entries [OF h1 h2 h3 h4 h5 h6 h7 h8] obtain e where
    e: "Parse testlib ?s = Inr e"
       "\<forall>key. map_of (EncryptedSecrets e) key = decoded_entry (secrets_field ?raw) key"
    by blast
  have bad: "b64_decode ''!!!'' = None" by (simp add: b64_decode_def)
  have "map_of (EncryptedSecrets e) ''GOOD'' = Some ''ABC''"
    "map_of (EncryptedSecrets e) ''BAD'' = None"
    using e(2) bad by (simp_all add: decoded_entry_def secrets_field_def del: b64_encode.simps)
  then show ?thesis using e(1) by blast
qed



section \<open>Package audit: the scanner and the chain\<close>

lemma scan_lines_long:
  assumes "newline \<notin> set l" and "MaxScanTokenSize \<le> length l"
  shows "scan_lines (l @ newline # rest) = []"
proof -
  have "\<forall>x \<in> set l. x \<noteq> newline" using assms(1) by auto
  then have t: "takeWhile (\<lambda>x. x \<noteq> newline) (l @ newline # rest) = l"
    by simp
  have "l \<noteq> []" using assms(2) by (auto simp: MaxScanTokenSize_def)
  then obtain c cs where c: "l @ newline # rest = c # cs" by (cases l) auto
  show ?thesis
    unfolding c scan_lines.simps Let_def
    using t assms(2) unfolding c by simp
qed

lemma scan_lines_line:
  assumes "newline \<notin> set l" and "length l < MaxScanTokenSize"
  shows "scan_lines (l @ newline # rest) = dropCR l # scan_lines rest"
proof -
  have "\<forall>x \<in> set l. x \<noteq> newline" using assms(1) by auto
  then have t: "takeWhile (\<lambda>x. x \<noteq> newline) (l @ newline # rest) = l"
    and d: "dropWhile (\<lambda>x. x \<noteq> newline) (l @ newline # rest) = newline # rest"
    by simp_all
  obtain c cs where c: "l @ newline # rest = c # cs" by (cases l) auto
  show ?thesis
    unfolding c scan_lines.simps Let_def
    using t d assms(2) unfolding c by simp
qed

lemma dropCR_id: "l = [] \<or> last l \<noteq> CHR 0x0D \<Longrightarrow> dropCR l = l"
  by (auto simp: dropCR_def)

lemma scan_lines_file_of:
  assumes "\<forall>l \<in> set ls. newline \<notin> set l \<and> length l < MaxScanTokenSize \<and> l \<noteq> [] \<and> last l \<noteq> CHR 0x0D"
  shows "scan_lines (file_of ls) = ls"
  using assms
proof (induction ls)
  case Nil
  show ?case by (simp add: file_of_def)
next
  case (Cons l ls)
  have "scan_lines (l @ newline # file_of ls) = dropCR l # scan_lines (file_of ls)"
    by (rule scan_lines_line) (use Cons.prems in auto)
  moreover have "dropCR l = l" by (rule dropCR_id) (use Cons.prems in auto)
  moreover have "scan_lines (file_of ls) = ls" by (rule Cons.IH) (use Cons.prems in auto)
  ultimately show ?case by (simp add: file_of_def)
qed

lemma foldl_last: "foldl (\<lambda>lastLine text. text) a ls = (if ls = [] then a else last ls)"
  by (induction ls arbitrary: a) auto

lemma PrevHash_apply_option: "PrevHash (apply_option opt e) = PrevHash e"
  by (cases opt) simp_all

lemma PrevHash_options:
  "PrevHash (foldl (\<lambda>entry opt. apply_option opt entry) e opts) = PrevHash e"
  by (induction opts arbitrary: e) (simp_all add: PrevHash_apply_option)

lemma PrevHash_new_entry: "PrevHash (new_entry L file now op opts) = lastHash L file"
  by (simp add: new_entry_def PrevHash_options)

lemma lastHash_genesis: "lastHash L None = []" "lastHash L (Some []) = []"
  by (simp_all add: lastHash_def)

lemma chainedD:
  assumes "chained L ls" and "i < length ls"
  obtains e where "entry_unmarshal L (ls ! i) = Some e"
    and "PrevHash e = (if i = 0 then [] else hex_encode (sha256_sum L (ls ! (i - 1))))"
  using assms(1) [unfolded chained_def, rule_format, OF assms(2)] by blast

lemma verify_loop_chained:
  "chained L ls \<Longrightarrow> 0 < i \<Longrightarrow> verify_loop L ls i breaks = breaks"
proof (induction L ls i breaks rule: verify_loop.induct)
  case (1 L ls i breaks)
  show ?case
  proof (cases "i < length ls")
    case False
    then show ?thesis by (subst verify_loop.simps) simp
  next
    case True
    from chainedD [OF "1.prems"(1) True] obtain e where
      e: "entry_unmarshal L (ls ! i) = Some e"
         "PrevHash e = (if i = 0 then [] else hex_encode (sha256_sum L (ls ! (i - 1))))"
      by blast
    have e2: "PrevHash e = hex_encode (sha256_sum L (ls ! (i - 1)))"
      using e(2) "1.prems"(2) by simp
    have "verify_loop L ls (i + 1) breaks = breaks"
      using "1.IH"(3) [OF True _ e(1)] e2 "1.prems"(1) by simp
    then show ?thesis
      using True e(1) e2 by (subst verify_loop.simps) simp
  qed
qed

lemma Verify_chained:
  assumes "chained L ls"
    and "\<forall>l \<in> set ls. newline \<notin> set l \<and> length l < MaxScanTokenSize \<and> l \<noteq> [] \<and> last l \<noteq> CHR 0x0D"
  shows "Verify L (Some (file_of ls)) =
           Inr \<lparr>TotalEntries = length ls, Breaks = [], FirstModified = 0\<rparr>"
proof (cases "ls = []")
  case True
  then show ?thesis by (simp add: Verify_def file_of_def)
next
  case False
  have s: "scan_lines (file_of ls) = ls" by (rule scan_lines_file_of [OF assms(2)])
  have "0 < length ls" using False by simp
  from chainedD [OF assms(1) this] obtain e where
    e: "entry_unmarshal L (ls ! 0) = Some e" "PrevHash e = []"
    by auto
  have v: "verify_loop L ls 1 [] = []" by (rule verify_loop_chained [OF assms(1)]) simp
  show ?thesis
    using False e v by (simp add: Verify_def s Let_def del: verify_loop.simps)
qed

lemma file_of_snoc: "file_of (ls @ [b]) = file_of ls @ b @ [newline]"
  by (simp add: file_of_def)

lemma lastHash_inv:
  assumes "log_inv L file ls"
  shows "lastHash L file = (if ls = [] then [] else hex_encode (sha256_sum L (last ls)))"
proof (cases "file")
  case None
  then show ?thesis using assms by (auto simp: log_inv_def lastHash_def)
next
  case (Some content)
  then have c: "content = file_of ls" using assms by (auto simp: log_inv_def)
  have g: "\<forall>l \<in> set ls. newline \<notin> set l \<and> length l < MaxScanTokenSize \<and> l \<noteq> [] \<and> last l \<noteq> CHR 0x0D"
    using assms by (simp add: log_inv_def good_line_def)
  have s: "scan_lines (file_of ls) = ls" by (rule scan_lines_file_of [OF g])
  have "ls \<noteq> [] \<Longrightarrow> last ls \<noteq> []" using g by (meson last_in_set)
  then show ?thesis
    unfolding Some c by (simp add: lastHash_def s foldl_last Let_def)
qed

lemma Log_step:
  assumes "entry_json_ok L" and "log_inv L file ls"
    and "entry_marshal L (new_entry L file now op opts) = Some b"
    and "length b < MaxScanTokenSize"
  shows "Log L file now op opts = (None, Some (file_of (ls @ [b]))) \<and>
         log_inv L (Some (file_of (ls @ [b]))) (ls @ [b])"
proof -
  let ?e = "new_entry L file now op opts"
  from assms(1) obtain b' e' where
    j: "entry_marshal L ?e = Some b'" "b' \<noteq> []" "newline \<notin> set b'" "last b' \<noteq> CHR 0x0D"
       "entry_unmarshal L b' = Some e'" "PrevHash e' = PrevHash ?e"
    unfolding entry_json_ok_def by blast
  have b: "b' = b" using j(1) assms(3) by simp
  have good: "good_line b" using j(2,3,4) assms(4) b by (simp add: good_line_def)
  have ph: "PrevHash e' = (if ls = [] then [] else hex_encode (sha256_sum L (last ls)))"
    using j(6) lastHash_inv [OF assms(2)] by (simp add: PrevHash_new_entry)
  have content: "(case file of None \<Rightarrow> [] | Some content \<Rightarrow> content) = file_of ls"
    using assms(2) by (auto simp: log_inv_def file_of_def)
  have log: "Log L file now op opts = (None, Some (file_of (ls @ [b])))"
    using assms(3) content by (simp add: Log_def file_of_snoc)
  have ch: "chained L (ls @ [b])"
    unfolding chained_def
  proof (intro allI impI)
    fix i
    assume i: "i < length (ls @ [b])"
    show "\<exists>e. entry_unmarshal L ((ls @ [b]) ! i) = Some e \<and>
            PrevHash e = (if i = 0 then [] else hex_encode (sha256_sum L ((ls @ [b]) ! (i - 1))))"
    proof (cases "i < length ls")
      case True
      have old: "chained L ls" using assms(2) by (simp add: log_inv_def)
      from chainedD [OF old True] obtain e where
        "entry_unmarshal L (ls ! i) = Some e"
        "PrevHash e = (if i = 0 then [] else hex_encode (sha256_sum L (ls ! (i - 1))))"
        by blast
      then show ?thesis using True by (auto simp: nth_append)
    next
      case False
      then have il: "i = length ls" using i by simp
      have "ls \<noteq> [] \<Longrightarrow> (ls @ [b]) ! (length ls - 1) = last ls"
        by (simp add: nth_append last_conv_nth)
      then show ?thesis using il j(5) b ph by (auto simp: nth_append)
    qed
  qed
  have "log_inv L (Some (file_of (ls @ [b]))) (ls @ [b])"
    using ch good assms(2) by (auto simp: log_inv_def)
  then show ?thesis using log by simp
qed

lemma Logs_inv:
  assumes "entry_json_ok L"
  shows "log_inv L fl ls \<Longrightarrow> all_short L fl calls \<Longrightarrow> calls \<noteq> [] \<Longrightarrow>
         \<exists>ls'. Logs L fl calls = Some (file_of ls') \<and> log_inv L (Some (file_of ls')) ls' \<and>
               length ls' = length ls + length calls"
proof (induction calls arbitrary: fl ls)
  case Nil
  then show ?case by simp
next
  case (Cons call calls)
  obtain now op opts where call: "call = (now, op, opts)" by (cases call)
  from Cons.prems(2) call obtain b where
    b: "entry_marshal L (new_entry L fl now op opts) = Some b" "length b < MaxScanTokenSize"
       "all_short L (snd (Log L fl now op opts)) calls"
    by (auto split: option.splits)
  note st = Log_step [OF assms Cons.prems(1) b(1,2)]
  have fl': "snd (Log L fl now op opts) = Some (file_of (ls @ [b]))" using st by simp
  show ?case
  proof (cases "calls = []")
    case True
    show ?thesis
      using st call True by (intro exI [of _ "ls @ [b]"]) simp
  next
    case False
    from Cons.IH [OF _ _ False, of "Some (file_of (ls @ [b]))" "ls @ [b]"] st b(3) fl'
    obtain ls' where
      "Logs L (Some (file_of (ls @ [b]))) calls = Some (file_of ls')"
      "log_inv L (Some (file_of ls')) ls'" "length ls' = length (ls @ [b]) + length calls"
      by auto
    then show ?thesis using call fl' by (intro exI [of _ ls']) simp
  qed
qed

lemma Verify_after_Logs:
  assumes "entry_json_ok L" and "file = None \<or> file = Some []"
    and "all_short L file calls" and "calls \<noteq> []"
  shows "Verify L (Logs L file calls) =
           Inr \<lparr>TotalEntries = length calls, Breaks = [], FirstModified = 0\<rparr>"
proof -
  have i: "log_inv L file []"
    using assms(2) by (auto simp: log_inv_def chained_def file_of_def)
  from Logs_inv [OF assms(1) i assms(3,4)] obtain ls' where
    l: "Logs L file calls = Some (file_of ls')" "log_inv L (Some (file_of ls')) ls'"
       "length ls' = length calls"
    by auto
  have g: "\<forall>l \<in> set ls'. newline \<notin> set l \<and> length l < MaxScanTokenSize \<and> l \<noteq> [] \<and> last l \<noteq> CHR 0x0D"
    using l(2) by (simp add: log_inv_def good_line_def)
  have c: "chained L ls'" using l(2) by (simp add: log_inv_def)
  show ?thesis unfolding l(1) using Verify_chained [OF c g] l(3) by simp
qed

lemma first_entry_genesis:
  assumes "file = None \<or> file = Some []"
  shows "PrevHash (new_entry L file now op opts) = []"
  using assms by (auto simp: PrevHash_new_entry lastHash_genesis)

lemma Verify_first_line_unparsable:
  assumes "scan_lines content = l # rest" and "entry_unmarshal L l = None"
  shows "Verify L (Some content) =
           Inr \<lparr>TotalEntries = Suc (length rest), Breaks = [], FirstModified = 1\<rparr>"
  using assms by (simp add: Verify_def Let_def)

lemma verify_loop_unparsable:
  assumes "i < length ls" and "entry_unmarshal L (ls ! i) = None"
  shows "verify_loop L ls i breaks = verify_loop L ls (i + 1) (breaks @ [i + 1])"
  using assms by (subst verify_loop.simps) simp

lemma Verify_long_first_entry:
  assumes "entry_marshal L (new_entry L None now op opts) = Some b"
    and "newline \<notin> set b" and "MaxScanTokenSize \<le> length b"
  shows "Log L None now op opts = (None, Some (b @ [newline])) \<and>
         Verify L (Some (b @ [newline])) =
           Inr \<lparr>TotalEntries = 0, Breaks = [], FirstModified = 0\<rparr> \<and>
         lastHash L (Some (b @ [newline])) = []"
proof -
  have s: "scan_lines (b @ newline # []) = []" by (rule scan_lines_long [OF assms(2,3)])
  show ?thesis
    using assms(1) s by (simp add: Log_def Verify_def lastHash_def Let_def)
qed

subsection \<open>The entry text of the test library\<close>

lemma t_num_no_newline: "newline \<notin> set (t_num i)"
  by (auto simp: t_num_def newline_def)

lemma t_quote_no_newline: "newline \<notin> set (t_quote s)"
  using hex_no_newline [of s] by (auto simp: t_quote_def quote_def newline_def)

lemma t_ser_no_newline: "newline \<notin> set (t_ser v)"
proof (induction v)
  case JNull
  show ?case by (simp add: newline_def)
next
  case (JBool b)
  show ?case by (simp add: newline_def)
next
  case (JNumber i)
  show ?case using t_num_no_newline by simp
next
  case (JString s)
  show ?case using t_quote_no_newline by simp
next
  case (JArray vs)
  then show ?case by (auto simp: newline_def)
next
  case (JObject kvs)
  have "newline \<notin> set (t_quote (fst kv) @ t_ser (snd kv))" if "kv \<in> set kvs" for kv
  proof -
    have "snd kv \<in> Basic_BNFs.snds kv" by (cases kv) simp
    from JObject [OF that this] show ?thesis using t_quote_no_newline by simp
  qed
  then show ?case by (auto simp: newline_def)
qed

lemma t_entry_of_json_entry: "t_entry_of_json (t_entry_json e) = Some e"
  by (simp add: t_entry_of_json_def t_entry_json_def scope_strings_all)

lemma t_entry_roundtrip: "t_entry_unmarshal (t_ser (t_entry_json e)) = Some e"
  by (simp add: t_entry_unmarshal_def t_unmarshal_ser t_entry_of_json_entry)

lemma t_ser_object_shape:
  "t_ser (JObject kvs) \<noteq> []" "last (t_ser (JObject kvs)) = CHR ''}''"
  by simp_all

lemma testlib_entry_json_ok: "entry_json_ok testlib"
proof -
  have "t_ser (t_entry_json e) \<noteq> [] \<and> newline \<notin> set (t_ser (t_entry_json e)) \<and>
        last (t_ser (t_entry_json e)) \<noteq> CHR 0x0D \<and>
        t_entry_unmarshal (t_ser (t_entry_json e)) = Some e" for e
    using t_ser_no_newline [of "t_entry_json e"] t_entry_roundtrip [of e]
      t_ser_object_shape [of "[(''ts'', JNumber (Timestamp e)),
        (''op'', JString (Op e)),
        (''scope'', JArray (map JString (EntryScope e))),
        (''sid'', JString (EntrySessionID e)),
        (''ttl'', JString (TTL e)),
        (''cmd'', JString (Command e)),
        (''exit'', JNumber (ExitCode e)),
        (''tool'', JString (Tool e)),
        (''prev_hash'', JString (PrevHash e))]"]
    unfolding t_entry_json_def by simp
  then show ?thesis
    unfolding entry_json_ok_def testlib_def t_entry_marshal_def by simp
qed

lemma t_entry_length: "length (Command e) \<le> length (t_ser (t_entry_json e))"
  by (simp add: t_entry_json_def t_quote_def length_hex_encode)

lemma Command_new_entry: "Command (new_entry L file now op [WithCommand cmd]) = cmd"
  by (simp add: new_entry_def)

lemma scan_two_lines:
  "scan_lines (''not json'' @ [newline] @ ''???'' @ [newline]) = [''not json'', ''???'']"
proof -
  have 1: "scan_lines (''not json'' @ newline # ''???'' @ [newline]) =
             dropCR ''not json'' # scan_lines (''???'' @ [newline])"
    by (rule scan_lines_line) (simp_all add: newline_def MaxScanTokenSize_def)
  have 2: "scan_lines (''???'' @ newline # []) = dropCR ''???'' # scan_lines []"
    by (rule scan_lines_line) (simp_all add: newline_def MaxScanTokenSize_def)
  show ?thesis using 1 2 by (simp add: dropCR_def)
qed

lemma t_not_json: "entry_unmarshal testlib ''not json'' = None"
  by (simp add: testlib_def t_entry_unmarshal_def t_unmarshal_def)

section \<open>The claims about package audit\<close>

text \<open>
  What holds of the chain. The first entry written to an absent or empty log has an
  empty \<open>prev_hash\<close> (\<open>first_entry_genesis\<close>). When every serialized entry is shorter
  than the scanner's limit of 64 KiB, then after any non-empty sequence of \<open>N\<close> appends
  to an absent or empty log \<open>Verify\<close> reports \<open>N\<close> entries and no break
  (\<open>Verify_after_Logs\<close>); the test library meets \<open>entry_json_ok\<close>
  (\<open>testlib_entry_json_ok\<close>).
\<close>

text \<open>
  C4 does not hold of the code for an entry whose line reaches the limit of
  \<open>bufio.Scanner\<close>. Such a line ends the scanning loop of \<open>Verify\<close> and of \<open>lastHash\<close>,
  and neither asks the scanner for its error: after one append of such an entry to an
  absent log, \<open>Verify\<close> reports 0 entries instead of 1, and \<open>lastHash\<close> is empty, so
  the next entry is written with an empty \<open>prev_hash\<close> instead of the digest of the
  line before it.
\<close>

theorem Verify_misses_long_entry:
  assumes "entry_marshal L (new_entry L None now op opts) = Some b"
    and "newline \<notin> set b" and "MaxScanTokenSize \<le> length b"
  shows "Log L None now op opts = (None, Some (b @ [newline])) \<and>
         Verify L (Some (b @ [newline])) =
           Inr \<lparr>TotalEntries = 0, Breaks = [], FirstModified = 0\<rparr> \<and>
         lastHash L (Some (b @ [newline])) = []"
  using assms by (rule Verify_long_first_entry)

theorem Verify_misses_long_entry_witness:
  "fst (Log testlib None 0 ''envelope_run'' [WithCommand (replicate 65536 (CHR ''a''))]) = None \<and>
   Verify testlib
     (snd (Log testlib None 0 ''envelope_run'' [WithCommand (replicate 65536 (CHR ''a''))])) =
     Inr \<lparr>TotalEntries = 0, Breaks = [], FirstModified = 0\<rparr>"
proof -
  let ?e = "new_entry testlib None 0 ''envelope_run'' [WithCommand (replicate 65536 (CHR ''a''))]"
  let ?b = "t_ser (t_entry_json ?e)"
  have m: "entry_marshal testlib ?e = Some ?b" by (simp add: testlib_def t_entry_marshal_def)
  have n: "newline \<notin> set ?b" by (rule t_ser_no_newline)
  have "length (Command ?e) = 65536" by (simp add: Command_new_entry)
  then have l: "MaxScanTokenSize \<le> length ?b"
    using t_entry_length [of ?e] by (simp add: MaxScanTokenSize_def)
  from Verify_misses_long_entry [OF m n l] show ?thesis by simp
qed

text \<open>
  C8 does not hold of the code for the first line. When the first line of the log does
  not parse, \<open>Verify\<close> sets \<open>FirstModified\<close> to 1 and returns at once: no break is
  recorded for line 1, and no later line is checked. (From the second line on the
  loop records an unparsable line as a break and goes on: \<open>verify_loop_unparsable\<close>.)
\<close>

theorem Verify_first_line_not_recorded:
  assumes "scan_lines content = l # rest" and "entry_unmarshal L l = None"
  shows "Verify L (Some content) =
           Inr \<lparr>TotalEntries = Suc (length rest), Breaks = [], FirstModified = 1\<rparr>"
  using assms by (rule Verify_first_line_unparsable)

theorem Verify_first_line_not_recorded_witness:
  "Verify testlib (Some (''not json'' @ [newline] @ ''???'' @ [newline])) =
     Inr \<lparr>TotalEntries = 2, Breaks = [], FirstModified = 1\<rparr>"
  using Verify_first_line_not_recorded [OF scan_two_lines t_not_json] by simp

section \<open>The test cases of the repository, on the model\<close>

text \<open>
  The expected values of \<open>TestParseEncryptedValue\<close> and \<open>TestEncryptedValueString\<close>
  (\<open>internal/crypto/envelope_test.go\<close>) and of \<open>TestVerify\<close> (package audit) hold of
  the definitions above, as do the standard test vectors of the two encodings. The
  text of an encrypted value parses back to the value whenever its wrapped key has no
  colon, which is so for every value that \<open>Encrypt\<close> returns.
\<close>

lemma b64_vectors:
  "b64_encode ''hello'' = ''aGVsbG8=''"
  "b64_encode ''wrapped-dek'' = ''d3JhcHBlZC1kZWs=''"
  "b64_decode ''Y2lwaGVydGV4dA=='' = Some ''ciphertext''"
  "b64_decode ''Y2k6cGhlcjp0ZXh0'' = Some ''ci:pher:text''"
  "b64_decode ''not base64!'' = None"
  by (simp_all add: encode_sextet_def b64_decode_def decode_char_def b64_alphabet_def
        padChar_def byte_def Let_def char_of_eq_iff take_bit_eq_mod)

lemma hex_vectors: "hex_encode [CHR 0x00, CHR 0x1f, CHR 0xab] = ''001fab''"
  by (simp add: hex_digit_def hextable_def)

lemma TestParseEncryptedValue:
  "ParseEncryptedValue ''envx:d3JhcHBlZC1kZWs=:Y2lwaGVydGV4dA=='' =
     Inr \<lparr>WrappedDEK = ''d3JhcHBlZC1kZWs='', Ciphertext = ''Y2lwaGVydGV4dA==''\<rparr>"
  "isl (ParseEncryptedValue ''plaintext-value'')"
  "isl (ParseEncryptedValue ''envx:only-one-part'')"
  "ParseEncryptedValue ''envx::'' = Inr \<lparr>WrappedDEK = [], Ciphertext = []\<rparr>"
  "ParseEncryptedValue ''envx:d3JhcHBlZC1kZWs=:Y2k6cGhlcjp0ZXh0'' =
     Inr \<lparr>WrappedDEK = ''d3JhcHBlZC1kZWs='', Ciphertext = ''Y2k6cGhlcjp0ZXh0''\<rparr>"
  "isl (ParseEncryptedValue ''enc:d3JhcHBlZC1kZWs=:Y2lwaGVydGV4dA=='')"
  by (simp_all add: ParseEncryptedValue_unfold HasPrefix_def)

lemma TestEncryptedValueString:
  "EncryptedValue_String \<lparr>WrappedDEK = ''wrapped-dek'', Ciphertext = ''ciphertext''\<rparr> =
     ''envx:wrapped-dek:ciphertext''"
  "EncryptedValue_String \<lparr>WrappedDEK = [], Ciphertext = []\<rparr> = ''envx::''"
  by (simp_all add: EncryptedValue_String_def EncryptedValuePrefix_def)

lemma Parse_EncryptedValue_String:
  assumes "CHR '':'' \<notin> set (WrappedDEK ev)"
  shows "ParseEncryptedValue (EncryptedValue_String ev) = Inr ev"
proof -
  have "\<forall>c \<in> set (WrappedDEK ev). c \<noteq> CHR '':''" using assms by auto
  then have "takeWhile (\<lambda>c. c \<noteq> CHR '':'') (WrappedDEK ev @ CHR '':'' # Ciphertext ev) = WrappedDEK ev"
    and "dropWhile (\<lambda>c. c \<noteq> CHR '':'') (WrappedDEK ev @ CHR '':'' # Ciphertext ev) = CHR '':'' # Ciphertext ev"
    by simp_all
  then show ?thesis
    by (simp add: ParseEncryptedValue_unfold EncryptedValue_String_def EncryptedValuePrefix_def
          HasPrefix_def)
qed

lemma b64_encode_no_colon: "CHR '':'' \<notin> set (b64_encode bs)"
proof
  assume "CHR '':'' \<in> set (b64_encode bs)"
  then have "CHR '':'' \<in> set b64_alphabet \<or> CHR '':'' = padChar" by (rule b64_encode_chars)
  then show False by (simp add: b64_alphabet_def padChar_def)
qed

lemma Parse_String_of_Encrypt:
  assumes "Encrypt L m p name tape = (Inr ev, tape')"
  shows "ParseEncryptedValue (EncryptedValue_String ev) = Inr ev"
proof -
  from Encrypt_Inr [OF assms] obtain w where "WrappedDEK ev = b64_encode w"
    by auto
  then have "CHR '':'' \<notin> set (WrappedDEK ev)" using b64_encode_no_colon by simp
  then show ?thesis by (rule Parse_EncryptedValue_String)
qed

lemma lastHash_length: "sha256_size L \<Longrightarrow> length (lastHash L fl) \<le> 64"
  by (auto simp: lastHash_def sha256_size_def length_hex_encode Let_def split: option.splits)

lemma testlib_plain_entry_short:
  assumes "nat \<bar>now\<bar> + 2 * length op < 65000"
  shows "length (t_ser (t_entry_json (new_entry testlib fl now op []))) < MaxScanTokenSize"
proof -
  have "length (t_ser (t_entry_json (new_entry testlib fl now op []))) =
          108 + 2 * (length op + length (lastHash testlib fl)) + nat \<bar>now\<bar>"
    by (simp add: new_entry_def t_entry_json_def t_quote_def t_num_def length_hex_encode)
  then show ?thesis
    using assms lastHash_length [OF testlib_sha256_size, of fl]
    by (simp add: MaxScanTokenSize_def)
qed

lemma TestVerify:
  "Verify testlib
     (Logs testlib None [(0, ''set'', []), (1, ''set'', []), (2, ''set'', []), (3, ''set'', []),
        (4, ''set'', [])]) =
     Inr \<lparr>TotalEntries = 5, Breaks = [], FirstModified = 0\<rparr>"
proof -
  have m: "\<And>e. entry_marshal testlib e = Some (t_ser (t_entry_json e))"
    by (simp add: testlib_def t_entry_marshal_def)
  have s: "all_short testlib None [(0, ''set'', []), (1, ''set'', []), (2, ''set'', []),
             (3, ''set'', []), (4, ''set'', [])]"
    by (simp add: m testlib_plain_entry_short)
  show ?thesis
    using Verify_after_Logs [OF testlib_entry_json_ok _ s] by simp
qed

end
